theory Spec2Isabelle
  imports Main "HOL-Library.Word"
begin

section \<open>Feature guesser: chapter rank of the candidate title set\<close>

text \<open>
  \<^verbatim>\<open>DVDGetInfo\<close> computes the chapter rank of the candidate title set twice, with
  two inline loops over \<^verbatim>\<open>title_set_chapter_array\<close> (the title-set number of every
  title, ordered by chapter count, highest first). Both loops visit the indices
  \<^verbatim>\<open>i < titles && i < 4\<close> and stop at the first hit; without a hit
  \<^verbatim>\<open>found_chapter\<close> keeps the value it was initialised with. The array is allocated
  with \<^verbatim>\<open>titles\<close> slots, so \<^verbatim>\<open>titles\<close> is the length of the list.
\<close>

function chapter_rank_loop :: "int \<Rightarrow> int list \<Rightarrow> nat \<Rightarrow> int \<Rightarrow> int" where
  "chapter_rank_loop candidate title_set_chapter_array i found_chapter =
     (if i < length title_set_chapter_array \<and> i < 4 then
        (if candidate = title_set_chapter_array ! i then int i + 1
         else chapter_rank_loop candidate title_set_chapter_array (Suc i) found_chapter)
      else found_chapter)"
  by pat_completeness auto
termination
  by (relation "measure (\<lambda>(c, a, i, f). 4 - i)") auto

declare chapter_rank_loop.simps [simp del]

text \<open>The first computation (before the first decision): \<^verbatim>\<open>found_chapter=6\<close>.\<close>

definition found_chapter_first :: "int \<Rightarrow> int list \<Rightarrow> int" where
  "found_chapter_first candidate title_set_chapter_array =
     chapter_rank_loop candidate title_set_chapter_array 0 6"

text \<open>
  The computation of the fall-through path, after \<^verbatim>\<open>candidate\<close> has been set back to
  \<^verbatim>\<open>title_set_size_array[0]\<close>: \<^verbatim>\<open>found_chapter=5\<close>.
\<close>

definition found_chapter_retest :: "int \<Rightarrow> int list \<Rightarrow> int" where
  "found_chapter_retest candidate title_set_chapter_array =
     chapter_rank_loop candidate title_set_chapter_array 0 5"

section \<open>Gap plan\<close>

text \<open>
  \<^verbatim>\<open>gap_range_t\<close> and \<^verbatim>\<open>gap_plan_t\<close>. The \<^verbatim>\<open>size_t\<close> fields are natural
  numbers: every block index the program stores in a plan is bounded by a file size in
  blocks, far below \<open>2 ^ 64\<close>. The list \<open>ranges\<close> holds the \<^verbatim>\<open>count\<close> used slots of the
  array, so \<^verbatim>\<open>plan->count\<close> is its length; \<open>capacity\<close> is the number of allocated slots.
\<close>

record gap_range =
  start_block :: nat
  block_count :: nat

record gap_plan =
  ranges :: "gap_range list"
  capacity :: nat

definition empty_plan :: gap_plan where
  "empty_plan = \<lparr>ranges = [], capacity = 0\<rparr>"

text \<open>
  \<^verbatim>\<open>gap_plan_add\<close>. The result is the return value and the plan as the call leaves it.
  \<open>realloc_ok n\<close> says whether growing the array to \<open>n\<close> slots succeeds.
\<close>

definition gap_plan_add :: "(nat \<Rightarrow> bool) \<Rightarrow> gap_plan \<Rightarrow> nat \<Rightarrow> nat \<Rightarrow> int \<times> gap_plan" where
  "gap_plan_add realloc_ok plan start count =
     (if count = 0 then (0, plan)
      else if ranges plan \<noteq> [] \<and>
              start \<le> start_block (last (ranges plan)) + block_count (last (ranges plan)) then
        (let lst = last (ranges plan);
             last_end = start_block lst + block_count lst;
             new_end = start + count
         in if new_end > last_end
            then (0, plan\<lparr>ranges := butlast (ranges plan) @
                                     [lst\<lparr>block_count := new_end - start_block lst\<rparr>]\<rparr>)
            else (0, plan))
      else
        (let new_capacity =
               (if length (ranges plan) = capacity plan then
                  (let c = (if capacity plan = 0 then 8 else capacity plan * 2)
                   in if c < length (ranges plan) + 1 then length (ranges plan) + 1 else c)
                else capacity plan)
         in if length (ranges plan) = capacity plan \<and> \<not> realloc_ok new_capacity
            then (-1, plan)
            else (0, \<lparr>ranges = ranges plan @ [\<lparr>start_block = start, block_count = count\<rparr>],
                      capacity = new_capacity\<rparr>)))"

text \<open>\<^verbatim>\<open>gap_plan_contains\<close>: the loop over the ranges, with its two early returns.\<close>

fun gap_contains_loop :: "gap_range list \<Rightarrow> nat \<Rightarrow> bool" where
  "gap_contains_loop [] block = False"
| "gap_contains_loop (r # rs) block =
     (if block < start_block r then False
      else if block < start_block r + block_count r then True
      else gap_contains_loop rs block)"

definition gap_plan_contains :: "gap_plan \<Rightarrow> nat \<Rightarrow> bool" where
  "gap_plan_contains plan block = gap_contains_loop (ranges plan) block"

text \<open>
  The ordered-disjoint invariant of a plan: every range ends strictly before any later
  range starts.
\<close>

definition plan_ordered :: "gap_range list \<Rightarrow> bool" where
  "plan_ordered rs =
     (\<forall>j < length rs. \<forall>i < j. start_block (rs ! i) + block_count (rs ! i) < start_block (rs ! j))"

text \<open>A sequence of insertions, each through \<^verbatim>\<open>gap_plan_add\<close>, stopping at the first failure.\<close>

fun gap_plan_add_all :: "(nat \<Rightarrow> bool) \<Rightarrow> gap_plan \<Rightarrow> (nat \<times> nat) list \<Rightarrow> int \<times> gap_plan" where
  "gap_plan_add_all realloc_ok plan [] = (0, plan)"
| "gap_plan_add_all realloc_ok plan ((s, c) # xs) =
     (case gap_plan_add realloc_ok plan s c of
        (rc, plan') \<Rightarrow> if rc \<noteq> 0 then (rc, plan') else gap_plan_add_all realloc_ok plan' xs)"


section \<open>Chapter extractor: sorting the cells and aligning their end sectors\<close>




text \<open>
  \<^verbatim>\<open>bsort_min_to_max\<close>: the inner loop over \<^verbatim>\<open>j\<close> for a fixed \<^verbatim>\<open>i\<close>, which swaps
  the entries \<^verbatim>\<open>i\<close> and \<^verbatim>\<open>j\<close> of both arrays when \<^verbatim>\<open>sector[i] < sector[j]\<close>, and the
  outer loop over \<^verbatim>\<open>i\<close>. The sort compares and swaps; it computes no new value.
\<close>

function bsort_min_inner :: "int list \<times> int list \<Rightarrow> int \<Rightarrow> nat \<Rightarrow> nat \<Rightarrow> int list \<times> int list" where
  "bsort_min_inner (sector, title) sz i j =
     (if int j < sz then
        bsort_min_inner
          (if sector ! i < sector ! j
           then (sector[i := sector ! j, j := sector ! i], title[i := title ! j, j := title ! i])
           else (sector, title))
          sz i (Suc j)
      else (sector, title))"
  by pat_completeness auto
termination
  by (relation "measure (\<lambda>(st, sz, i, j). nat sz - j)") auto

function bsort_min_outer :: "int list \<times> int list \<Rightarrow> int \<Rightarrow> nat \<Rightarrow> int list \<times> int list" where
  "bsort_min_outer st sz i =
     (if int i < sz then bsort_min_outer (bsort_min_inner st sz i 0) sz (Suc i) else st)"
  by pat_completeness auto
termination
  by (relation "measure (\<lambda>(st, sz, i). nat sz - i)") auto

declare bsort_min_inner.simps [simp del] bsort_min_outer.simps [simp del]






text \<open>
  Predicates used in the proof that the sort orders the start sectors: the first \<open>i\<close>
  entries are in non-decreasing order, and the invariant of the inner loop while it
  inserts entry \<open>i\<close> into them.
\<close>

definition sorted_upto :: "int list \<Rightarrow> nat \<Rightarrow> bool" where
  "sorted_upto xs i = (\<forall>a b. a < b \<and> b < i \<longrightarrow> xs ! a \<le> xs ! b)"


section \<open>Verification sampling\<close>

text \<open>
  \<^verbatim>\<open>gap_collect_samples\<close>. The two \<^verbatim>\<open>while\<close> loops of its body are the functions
  \<open>forward_walk\<close> and \<open>backward_walk\<close>; \<open>gap_sample_at\<close> is the body of the
  \<^verbatim>\<open>for\<close> loop up to the decision whether iteration \<open>i\<close> has a block to offer
  (\<open>None\<close> where the source says \<^verbatim>\<open>continue\<close> after the backward walk), and
  \<open>gap_collect_loop\<close> is the \<^verbatim>\<open>for\<close> loop with the array \<^verbatim>\<open>samples[0..count)\<close> as a
  list. The product for the candidate is computed in \<^verbatim>\<open>uint64_t\<close>, hence the
  \<open>mod 2 ^ 64\<close>.
\<close>

definition GAP_SAMPLE_TARGET :: nat where
  "GAP_SAMPLE_TARGET = 32"

function forward_walk :: "gap_plan \<Rightarrow> nat \<Rightarrow> nat \<Rightarrow> nat" where
  "forward_walk plan available_blocks forward =
     (if forward < available_blocks \<and> gap_plan_contains plan forward
      then forward_walk plan available_blocks (forward + 1)
      else forward)"
  by pat_completeness auto
termination
  by (relation "measure (\<lambda>(p, a, f). a - f)") auto

function backward_walk :: "gap_plan \<Rightarrow> nat \<Rightarrow> nat" where
  "backward_walk plan backward =
     (if backward > 0 \<and> gap_plan_contains plan backward
      then backward_walk plan (backward - 1)
      else backward)"
  by pat_completeness auto
termination
  by (relation "measure (\<lambda>(p, b). b)") auto

declare forward_walk.simps [simp del] backward_walk.simps [simp del]

definition gap_sample_at :: "gap_plan \<Rightarrow> nat \<Rightarrow> nat \<Rightarrow> nat \<Rightarrow> nat option" where
  "gap_sample_at plan available_blocks target i =
     (let candidate0 = (((i + 1) * available_blocks) mod 2 ^ 64) div (target + 1);
          candidate = (if candidate0 \<ge> available_blocks then available_blocks - 1 else candidate0);
          forward = forward_walk plan available_blocks candidate0
      in if forward \<ge> available_blocks then
           (let backward = backward_walk plan candidate
            in if gap_plan_contains plan backward then None else Some backward)
         else Some forward)"

function gap_collect_loop :: "gap_plan \<Rightarrow> nat \<Rightarrow> nat \<Rightarrow> nat \<Rightarrow> nat list \<Rightarrow> nat list" where
  "gap_collect_loop plan available_blocks target i samples =
     (if i < target then
        (case gap_sample_at plan available_blocks target i of
           None \<Rightarrow> gap_collect_loop plan available_blocks target (Suc i) samples
         | Some forward \<Rightarrow>
             if samples \<noteq> [] \<and> last samples = forward
             then gap_collect_loop plan available_blocks target (Suc i) samples
             else gap_collect_loop plan available_blocks target (Suc i) (samples @ [forward]))
      else samples)"
  by pat_completeness auto
termination
  by (relation "measure (\<lambda>(p, a, t, i, s). t - i)") auto

declare gap_collect_loop.simps [simp del]

definition gap_collect_samples :: "gap_plan \<Rightarrow> nat \<Rightarrow> nat \<Rightarrow> nat list" where
  "gap_collect_samples plan available_blocks desired =
     (if available_blocks = 0 \<or> desired = 0 then []
      else gap_collect_loop plan available_blocks
             (if available_blocks < desired then available_blocks else desired) 0 [])"

text \<open>
  The sampling as the specification words it, to be compared with the code.
  A block lies in the plan when some range covers it. Sample \<open>i\<close> of target \<open>T\<close>
  starts at \<open>\<lfloor>(i + 1) \<sqdot> expected_blocks / (T + 1)\<rfloor>\<close> and is the first block from
  there on, below \<open>expected_blocks\<close>, that is not in the plan; when there is none, it
  is the first block not in the plan walking backward from the candidate down to 0,
  and there is no sample when that walk finds none either. A sample equal to the last
  collected one is dropped.
\<close>

definition in_gap :: "gap_range list \<Rightarrow> nat \<Rightarrow> bool" where
  "in_gap rs block = (\<exists>r \<in> set rs. start_block r \<le> block \<and> block < start_block r + block_count r)"

definition spec_sample :: "gap_range list \<Rightarrow> nat \<Rightarrow> nat \<Rightarrow> nat \<Rightarrow> nat option" where
  "spec_sample rs expected_blocks T i =
     (let candidate = ((i + 1) * expected_blocks) div (T + 1)
      in case find (\<lambda>b. \<not> in_gap rs b) [candidate ..< expected_blocks] of
           Some f \<Rightarrow> Some f
         | None \<Rightarrow> find (\<lambda>b. \<not> in_gap rs b) (rev [0 ..< Suc candidate]))"

definition spec_keep :: "nat list \<Rightarrow> nat option \<Rightarrow> nat list" where
  "spec_keep acc s =
     (case s of None \<Rightarrow> acc
      | Some b \<Rightarrow> if acc \<noteq> [] \<and> last acc = b then acc else acc @ [b])"

definition spec_collect :: "gap_range list \<Rightarrow> nat \<Rightarrow> nat list" where
  "spec_collect rs expected_blocks =
     (let T = min 32 expected_blocks
      in foldl (\<lambda>acc i. spec_keep acc (spec_sample rs expected_blocks T i)) [] [0 ..< T])"

section \<open>Blocks, the disc and the output file\<close>

text \<open>
  A logical block has \<^verbatim>\<open>DVD_VIDEO_LB_LEN\<close> = 2048 bytes (the constant comes from the
  header of libdvdread; the program's own \<^verbatim>\<open>DVD_SEC_SIZ\<close> has the same value). The
  copy buffer holds \<^verbatim>\<open>BUFFER_SIZE\<close> blocks, a title VOB at most \<^verbatim>\<open>MAX_VOB_SIZE\<close>.
\<close>

type_synonym byte = "8 word"

definition DVD_VIDEO_LB_LEN :: nat where
  "DVD_VIDEO_LB_LEN = 2048"

definition BUFFER_SIZE :: nat where
  "BUFFER_SIZE = 512"

definition MAX_VOB_SIZE :: int where
  "MAX_VOB_SIZE = 524288"

text \<open>The two enumerations of \<^verbatim>\<open>dvdbackup.h\<close>, with the names the program uses.\<close>

datatype read_error_strategy_t = STRATEGY_ABORT | STRATEGY_SKIP_BLOCK | STRATEGY_SKIP_MULTIBLOCK

datatype gap_strategy_t =
  GAP_STRATEGY_FORWARD | GAP_STRATEGY_REVERSE | GAP_STRATEGY_OUTSIDE_IN | GAP_STRATEGY_RANDOM

text \<open>
  The disc behind a \<^verbatim>\<open>dvd_file_t\<close> handle. \<^verbatim>\<open>DVDReadBlocks\<close> belongs to libdvdread, so
  its behaviour is a parameter: \<open>read_ret d offset block_count\<close> is the value the call
  returns and \<open>read_data d offset block_count k\<close> is byte \<open>k\<close> of the caller's buffer
  after the call. The program only ever looks at the bytes of the blocks the call
  reported as read.
\<close>

record dvd_file_t =
  read_ret :: "int \<Rightarrow> int \<Rightarrow> int"
  read_data :: "int \<Rightarrow> int \<Rightarrow> nat \<Rightarrow> byte"

definition buffer_bytes :: "dvd_file_t \<Rightarrow> int \<Rightarrow> int \<Rightarrow> nat \<Rightarrow> byte list" where
  "buffer_bytes d offset n len = map (read_data d offset n) [0 ..< len]"

text \<open>The contract of \<^verbatim>\<open>DVDReadBlocks\<close>: it never reports more blocks than were asked for.\<close>

definition reads_bounded :: "dvd_file_t \<Rightarrow> bool" where
  "reads_bounded d = (\<forall>offset n. read_ret d offset n \<le> n)"

text \<open>
  The operating system's side of the calls that can fail: \<^verbatim>\<open>fstat\<close>, \<^verbatim>\<open>malloc\<close> of
  a copy buffer, \<^verbatim>\<open>realloc\<close> to a number of slots, \<^verbatim>\<open>pread\<close> at a byte offset,
  the return value of \<^verbatim>\<open>write\<close>/\<^verbatim>\<open>pwrite\<close> for a byte offset and a byte count,
  the values of \<^verbatim>\<open>rand()\<close> after \<^verbatim>\<open>srand(seed)\<close>, \<^verbatim>\<open>ftruncate\<close>, and
  \<^verbatim>\<open>open\<close> of the title VOB with a given part number.
\<close>

record os_t =
  fstat_fails :: bool
  malloc_fails :: bool
  realloc_succeeds :: "nat \<Rightarrow> bool"
  pread_fails :: "nat \<Rightarrow> bool"
  write_ret :: "nat \<Rightarrow> nat \<Rightarrow> int"
  rand_ret :: "nat \<Rightarrow> nat \<Rightarrow> int"
  ftruncate_fails :: bool
  open_fails :: "int \<Rightarrow> bool"

text \<open>
  An open output file: its bytes, and the list of the write requests issued on it so far
  as (byte offset, byte count). A write at an offset past the end of a regular file
  leaves a hole that reads as zeros. A write that returns a short count has stored that
  many bytes.
\<close>

record fd_t =
  content :: "byte list"
  writes :: "(nat \<times> nat) list"

definition put_bytes :: "byte list \<Rightarrow> nat \<Rightarrow> byte list \<Rightarrow> byte list" where
  "put_bytes f off data =
     (if data = [] then f
      else take off f @ replicate (off - length f) 0 @ data @ drop (off + length data) f)"

definition pwrite :: "os_t \<Rightarrow> fd_t \<Rightarrow> byte list \<Rightarrow> nat \<Rightarrow> int \<times> fd_t" where
  "pwrite os fd data off =
     (let r = write_ret os off (length data);
          k = (if r < 0 then 0 else min (nat r) (length data))
      in (r, \<lparr>content = put_bytes (content fd) off (take k data),
               writes = writes fd @ [(off, length data)]\<rparr>))"

text \<open>
  \<^verbatim>\<open>pread\<close> on a regular file: the bytes the file has in the requested window, or \<open>-1\<close>.
\<close>

definition pread :: "os_t \<Rightarrow> byte list \<Rightarrow> nat \<Rightarrow> nat \<Rightarrow> int \<times> byte list" where
  "pread os f n off =
     (if pread_fails os off then (-1, [])
      else (int (length (take n (drop off f))), take n (drop off f)))"

text \<open>\<^verbatim>\<open>buffer_is_blank\<close>: the loop over the first \<open>len\<close> bytes of the buffer.\<close>

function buffer_is_blank_loop :: "byte list \<Rightarrow> nat \<Rightarrow> nat \<Rightarrow> bool" where
  "buffer_is_blank_loop buffer len i =
     (if i < len then
        (if buffer ! i \<noteq> 0 then False else buffer_is_blank_loop buffer len (Suc i))
      else True)"
  by pat_completeness auto
termination
  by (relation "measure (\<lambda>(b, len, i). len - i)") auto

declare buffer_is_blank_loop.simps [simp del]

definition buffer_is_blank :: "byte list \<Rightarrow> nat \<Rightarrow> bool" where
  "buffer_is_blank buffer len = buffer_is_blank_loop buffer len 0"

section \<open>Scanning an existing file for gaps\<close>

text \<open>
  \<^verbatim>\<open>scan_existing_file_for_gaps\<close>. The local variables the two loops change are the
  plan, \<^verbatim>\<open>blank_blocks\<close> and \<^verbatim>\<open>pending_start\<close>, whose value \<^verbatim>\<open>SIZE_MAX\<close> (no run is
  open) is \<open>None\<close> here. \<open>scan_chunk\<close> is the \<^verbatim>\<open>for\<close> loop over the blocks of one
  chunk, \<open>scan_loop\<close> the \<^verbatim>\<open>while\<close> loop over the chunks. Every failure makes the
  function return \<open>-1\<close>; the error value says which call failed.
\<close>

datatype scan_error = FstatFailed | OutOfMemory | PreadFailed

record scan_state =
  st_plan :: gap_plan
  st_blank_blocks :: nat
  st_pending_start :: "nat option"

record scan_result =
  sr_plan :: gap_plan
  sr_blank_blocks :: nat
  sr_full_blocks :: nat
  sr_existing_bytes :: nat

function scan_chunk ::
  "os_t \<Rightarrow> byte list \<Rightarrow> nat \<Rightarrow> nat \<Rightarrow> nat \<Rightarrow> scan_state \<Rightarrow> scan_error + scan_state" where
  "scan_chunk os buffer processed chunk_blocks i st =
     (if i < chunk_blocks then
        (let block_index = processed + i;
             block_ptr = drop (i * DVD_VIDEO_LB_LEN) buffer
         in if buffer_is_blank block_ptr DVD_VIDEO_LB_LEN then
              scan_chunk os buffer processed chunk_blocks (Suc i)
                (if st_pending_start st = None then st\<lparr>st_pending_start := Some block_index\<rparr> else st)
            else
              (case st_pending_start st of
                 Some p \<Rightarrow>
                   (let run = block_index - p
                    in case gap_plan_add (realloc_succeeds os) (st_plan st) p run of
                         (rc, plan') \<Rightarrow>
                           if rc \<noteq> 0 then Inl OutOfMemory
                           else scan_chunk os buffer processed chunk_blocks (Suc i)
                                  \<lparr>st_plan = plan', st_blank_blocks = st_blank_blocks st + run,
                                   st_pending_start = None\<rparr>)
               | None \<Rightarrow> scan_chunk os buffer processed chunk_blocks (Suc i) st))
      else Inr st)"
  by pat_completeness auto
termination
  by (relation "measure (\<lambda>(os, b, p, c, i, st). c - i)") auto

function scan_loop ::
  "os_t \<Rightarrow> byte list \<Rightarrow> nat \<Rightarrow> nat \<Rightarrow> scan_state \<Rightarrow> scan_error + scan_state" where
  "scan_loop os f scan_blocks processed st =
     (if processed < scan_blocks then
        (let chunk_blocks0 = (if scan_blocks - processed > BUFFER_SIZE then BUFFER_SIZE
                              else scan_blocks - processed)
         in case pread os f (chunk_blocks0 * DVD_VIDEO_LB_LEN) (processed * DVD_VIDEO_LB_LEN) of
              (bytes, buffer) \<Rightarrow>
                if bytes < 0 then Inl PreadFailed
                else
                  (let have_blocks = nat bytes div DVD_VIDEO_LB_LEN
                   in if have_blocks = 0 then Inr st
                      else
                        (let chunk_blocks = (if have_blocks < chunk_blocks0 then have_blocks
                                             else chunk_blocks0)
                         in case scan_chunk os buffer processed chunk_blocks 0 st of
                              Inl e \<Rightarrow> Inl e
                            | Inr st' \<Rightarrow>
                                scan_loop os f scan_blocks (processed + chunk_blocks) st')))
      else Inr st)"
  by pat_completeness auto
termination
  by (relation "measure (\<lambda>(os, f, n, p, st). n - p)") (auto simp: BUFFER_SIZE_def)

declare scan_chunk.simps [simp del] scan_loop.simps [simp del]

definition scan_existing_file_for_gaps ::
  "os_t \<Rightarrow> byte list \<Rightarrow> nat \<Rightarrow> gap_plan \<Rightarrow> scan_error + scan_result" where
  "scan_existing_file_for_gaps os f expected_blocks plan0 =
     (if fstat_fails os then Inl FstatFailed
      else
        (let existing_bytes = length f;
             full_blocks = existing_bytes div DVD_VIDEO_LB_LEN;
             scan_blocks = (if full_blocks > expected_blocks then expected_blocks else full_blocks)
         in if scan_blocks > 0 \<and> malloc_fails os then Inl OutOfMemory
            else
              (case scan_loop os f scan_blocks 0
                      \<lparr>st_plan = plan0, st_blank_blocks = 0, st_pending_start = None\<rparr> of
                 Inl e \<Rightarrow> Inl e
               | Inr st \<Rightarrow>
                   (case st_pending_start st of
                      Some p \<Rightarrow>
                        (let run = scan_blocks - p
                         in case gap_plan_add (realloc_succeeds os) (st_plan st) p run of
                              (rc, plan') \<Rightarrow>
                                if rc \<noteq> 0 then Inl OutOfMemory
                                else Inr \<lparr>sr_plan = plan', sr_blank_blocks = st_blank_blocks st + run,
                                         sr_full_blocks = full_blocks,
                                         sr_existing_bytes = existing_bytes\<rparr>)
                    | None \<Rightarrow>
                        Inr \<lparr>sr_plan = st_plan st, sr_blank_blocks = st_blank_blocks st,
                             sr_full_blocks = full_blocks,
                             sr_existing_bytes = existing_bytes\<rparr>))))"

text \<open>
  What the scan is to find, in the specification's words: block \<open>b\<close> of a file is
  blank when each of its 2048 bytes is zero; a maximal run of blank blocks among the
  first \<open>n\<close> blocks starts at \<open>s\<close>, has \<open>c > 0\<close> blocks, all blank, and is bounded on
  either side by a block that is not blank or by the end of the scanned blocks.
\<close>

definition file_block :: "byte list \<Rightarrow> nat \<Rightarrow> byte list" where
  "file_block f b = take DVD_VIDEO_LB_LEN (drop (b * DVD_VIDEO_LB_LEN) f)"

definition blank_block :: "byte list \<Rightarrow> nat \<Rightarrow> bool" where
  "blank_block f b = (file_block f b = replicate DVD_VIDEO_LB_LEN 0)"

definition maximal_run :: "(nat \<Rightarrow> bool) \<Rightarrow> nat \<Rightarrow> nat \<Rightarrow> nat \<Rightarrow> bool" where
  "maximal_run B n s c =
     (0 < c \<and> s + c \<le> n \<and> (\<forall>b. s \<le> b \<and> b < s + c \<longrightarrow> B b) \<and>
      (s = 0 \<or> \<not> B (s - 1)) \<and> (s + c = n \<or> \<not> B (s + c)))"

definition scanned_blocks :: "byte list \<Rightarrow> nat \<Rightarrow> nat" where
  "scanned_blocks f expected_blocks = min (length f div DVD_VIDEO_LB_LEN) expected_blocks"

definition blank_count :: "byte list \<Rightarrow> nat \<Rightarrow> nat" where
  "blank_count f expected_blocks =
     length (filter (blank_block f) [0 ..< scanned_blocks f expected_blocks])"

text \<open>
  Predicates for the proof that the scan finds the maximal blank runs. While the scan has
  looked at the blocks below \<open>k\<close>, the runs already in the plan are closed by a
  block that is not blank, the blank blocks below the start of the open run are covered
  by the plan and counted, and the open run, if any, reaches up to \<open>k\<close>.
\<close>

definition cnt :: "(nat \<Rightarrow> bool) \<Rightarrow> nat \<Rightarrow> nat" where
  "cnt B n = length (filter B [0 ..< n])"

definition closed_run :: "(nat \<Rightarrow> bool) \<Rightarrow> nat \<Rightarrow> gap_range \<Rightarrow> bool" where
  "closed_run B q r =
     (0 < block_count r \<and>
      (\<forall>b. start_block r \<le> b \<and> b < start_block r + block_count r \<longrightarrow> B b) \<and>
      (start_block r = 0 \<or> \<not> B (start_block r - 1)) \<and>
      start_block r + block_count r < q \<and> \<not> B (start_block r + block_count r))"

definition open_run :: "(nat \<Rightarrow> bool) \<Rightarrow> nat \<Rightarrow> nat option \<Rightarrow> bool" where
  "open_run B k pending =
     (case pending of
        None \<Rightarrow> k = 0 \<or> \<not> B (k - 1)
      | Some p \<Rightarrow> p < k \<and> (\<forall>b. p \<le> b \<and> b < k \<longrightarrow> B b) \<and> (p = 0 \<or> \<not> B (p - 1)))"

definition frontier :: "nat \<Rightarrow> nat option \<Rightarrow> nat" where
  "frontier k pending = (case pending of None \<Rightarrow> k | Some p \<Rightarrow> p)"

definition scan_inv :: "(nat \<Rightarrow> bool) \<Rightarrow> nat \<Rightarrow> scan_state \<Rightarrow> bool" where
  "scan_inv B k st =
     (plan_ordered (ranges (st_plan st)) \<and>
      (\<forall>r \<in> set (ranges (st_plan st)). closed_run B (frontier k (st_pending_start st)) r) \<and>
      (\<forall>b < frontier k (st_pending_start st). B b \<longrightarrow> in_gap (ranges (st_plan st)) b) \<and>
      st_blank_blocks st = cnt B (frontier k (st_pending_start st)) \<and>
      open_run B k (st_pending_start st))"

text \<open>Some call of the operating system fails.\<close>

definition os_failure :: "os_t \<Rightarrow> bool" where
  "os_failure os = (fstat_fails os \<or> malloc_fails os \<or> (\<exists>off. pread_fails os off) \<or>
                    (\<exists>n. \<not> realloc_succeeds os n))"

definition scan_post :: "(nat \<Rightarrow> bool) \<Rightarrow> nat \<Rightarrow> gap_range list \<Rightarrow> bool" where
  "scan_post B n rs =
     (plan_ordered rs \<and>
      (\<forall>r \<in> set rs. maximal_run B n (start_block r) (block_count r)) \<and>
      (\<forall>b < n. B b \<longrightarrow> in_gap rs b))"

text \<open>An operating system without failures and two blocks, for concrete runs.\<close>

definition quiet_os :: os_t where
  "quiet_os = \<lparr>fstat_fails = False, malloc_fails = False, realloc_succeeds = (\<lambda>n. True),
               pread_fails = (\<lambda>off. False), write_ret = (\<lambda>off n. int n),
               rand_ret = (\<lambda>seed k. 0), ftruncate_fails = False,
               open_fails = (\<lambda>vob. False)\<rparr>"

definition zero_block :: "byte list" where
  "zero_block = replicate DVD_VIDEO_LB_LEN 0"

definition ones_block :: "byte list" where
  "ones_block = replicate DVD_VIDEO_LB_LEN 1"

section \<open>The block copier\<close>

text \<open>
  \<^verbatim>\<open>DVDCopyBlocks\<close> outside refresh mode. Its callers open the destination empty
  (created, or truncated on opening), so the position of the descriptor is the end of
  what has been written and \<^verbatim>\<open>write\<close> appends. The variables the loop changes are
  \<^verbatim>\<open>offset\<close>, \<^verbatim>\<open>remaining\<close>, \<^verbatim>\<open>to_read\<close> and the destination.

  \<open>copy_iteration\<close> is one pass through the body of the \<^verbatim>\<open>while\<close> loop: \<open>Inl\<close>
  carries the value of a \<^verbatim>\<open>return\<close> inside the body together with the destination as
  it is left, \<open>Inr\<close> the variables for the next pass. The loop itself may fail to
  terminate for a \<^verbatim>\<open>to_read\<close> below 1, which is why it is a partial function;
  \<^verbatim>\<open>DVDCopyBlocks\<close> starts it with \<^verbatim>\<open>BUFFER_SIZE\<close>.
\<close>

definition write_seq :: "os_t \<Rightarrow> fd_t \<Rightarrow> byte list \<Rightarrow> int \<times> fd_t" where
  "write_seq os fd data = pwrite os fd data (length (content fd))"

definition buffer_zero :: "byte list" where
  "buffer_zero = replicate (BUFFER_SIZE * DVD_VIDEO_LB_LEN) 0"

record copy_state =
  cs_offset :: int
  cs_remaining :: int
  cs_to_read :: int
  cs_destination :: fd_t

definition copy_iteration ::
  "dvd_file_t \<Rightarrow> os_t \<Rightarrow> read_error_strategy_t \<Rightarrow> copy_state \<Rightarrow> (int \<times> fd_t) + copy_state" where
  "copy_iteration dvd_file os errorstrat st =
     (let to_read = (if cs_to_read st > cs_remaining st then cs_remaining st else cs_to_read st);
          act_read = read_ret dvd_file (cs_offset st) to_read;
          wr = (if act_read > 0
                then write_seq os (cs_destination st)
                       (buffer_bytes dvd_file (cs_offset st) to_read
                          (nat (act_read * int DVD_VIDEO_LB_LEN)))
                else (0, cs_destination st))
      in if act_read > 0 \<and> fst wr \<noteq> act_read * int DVD_VIDEO_LB_LEN then Inl (1, snd wr)
         else
           (let offset = (if act_read > 0 then cs_offset st + act_read else cs_offset st);
                remaining = (if act_read > 0 then cs_remaining st - act_read else cs_remaining st)
            in if act_read \<noteq> to_read then
                 (let act_read0 = (if act_read < 0 then 0 else act_read)
                  in case errorstrat of
                       STRATEGY_ABORT \<Rightarrow> Inl (1, snd wr)
                     | _ \<Rightarrow>
                         (let numBlanks = (if errorstrat = STRATEGY_SKIP_BLOCK then 1
                                           else to_read - act_read0);
                              pad = write_seq os (snd wr)
                                      (take (nat (numBlanks * int DVD_VIDEO_LB_LEN)) buffer_zero)
                          in if fst pad \<noteq> numBlanks * int DVD_VIDEO_LB_LEN then Inl (1, snd pad)
                             else Inr \<lparr>cs_offset = offset + numBlanks,
                                      cs_remaining = remaining - numBlanks,
                                      cs_to_read = to_read,
                                      cs_destination = snd pad\<rparr>))
               else Inr \<lparr>cs_offset = offset, cs_remaining = remaining,
                         cs_to_read = to_read, cs_destination = snd wr\<rparr>))"

partial_function (option) copy_loop ::
  "dvd_file_t \<Rightarrow> os_t \<Rightarrow> read_error_strategy_t \<Rightarrow> copy_state \<Rightarrow> (int \<times> fd_t) option" where
  "copy_loop dvd_file os errorstrat st =
     (if cs_remaining st > 0 then
        (case copy_iteration dvd_file os errorstrat st of
           Inl res \<Rightarrow> Some res
         | Inr st' \<Rightarrow> copy_loop dvd_file os errorstrat st')
      else Some (0, cs_destination st))"

definition DVDCopyBlocks ::
  "dvd_file_t \<Rightarrow> os_t \<Rightarrow> fd_t \<Rightarrow> int \<Rightarrow> int \<Rightarrow> read_error_strategy_t \<Rightarrow> (int \<times> fd_t) option" where
  "DVDCopyBlocks dvd_file os destination offset sz errorstrat =
     copy_loop dvd_file os errorstrat
       \<lparr>cs_offset = offset, cs_remaining = sz, cs_to_read = int BUFFER_SIZE,
        cs_destination = destination\<rparr>"

text \<open>Every \<^verbatim>\<open>write\<close> stores all the bytes it is given.\<close>

definition writes_complete :: "os_t \<Rightarrow> bool" where
  "writes_complete os = (\<forall>off n. write_ret os off n = int n)"

text \<open>A disc whose reads at one offset come up short with \<open>got\<close> blocks.\<close>

definition short_disc :: "int \<Rightarrow> int \<Rightarrow> dvd_file_t" where
  "short_disc bad got =
     \<lparr>read_ret = (\<lambda>offset n. if offset = bad then got else n),
      read_data = (\<lambda>offset n k. 1)\<rparr>"

section \<open>Refreshing a file: verification and refill\<close>

text \<open>
  \<^verbatim>\<open>gap_verify_samples\<close>: for each sample one block is read from the disc and one from
  the file, and the two are compared with \<^verbatim>\<open>memcmp\<close>. The casts of block numbers from
  \<^verbatim>\<open>size_t\<close> to \<^verbatim>\<open>int\<close> are exact, since a block number is below the size of the
  file in blocks, which the callers hold in an \<^verbatim>\<open>int\<close>.
\<close>

fun gap_verify_samples :: "os_t \<Rightarrow> byte list \<Rightarrow> dvd_file_t \<Rightarrow> int \<Rightarrow> nat list \<Rightarrow> int" where
  "gap_verify_samples os f dvd_file dvd_offset [] = 0"
| "gap_verify_samples os f dvd_file dvd_offset (block # samples) =
     (if read_ret dvd_file (dvd_offset + int block) 1 \<noteq> 1 then 1
      else
        (case pread os f DVD_VIDEO_LB_LEN (block * DVD_VIDEO_LB_LEN) of
           (read_bytes, file_blk) \<Rightarrow>
             if read_bytes \<noteq> int DVD_VIDEO_LB_LEN then 1
             else if buffer_bytes dvd_file (dvd_offset + int block) 1 DVD_VIDEO_LB_LEN \<noteq> file_blk
             then 1
             else gap_verify_samples os f dvd_file dvd_offset samples))"

text \<open>
  \<^verbatim>\<open>gap_process_segment\<close>. \<open>gap_process_step\<close> is one pass through the body of its
  \<^verbatim>\<open>while\<close> loop: \<open>Inl\<close> carries the value of a \<^verbatim>\<open>return\<close> inside the body, the
  file as it is left and the running total \<^verbatim>\<open>*filled_blocks_out\<close>; \<open>Inr\<close> carries
  the new \<^verbatim>\<open>cursor\<close>, the file and the total for the next pass.
\<close>

definition gap_process_step ::
  "os_t \<Rightarrow> dvd_file_t \<Rightarrow> int \<Rightarrow> nat \<Rightarrow> nat \<Rightarrow> read_error_strategy_t \<Rightarrow> nat \<Rightarrow> fd_t \<Rightarrow> nat \<Rightarrow>
   (int \<times> fd_t \<times> nat) + (nat \<times> fd_t \<times> nat)" where
  "gap_process_step os dvd_file dvd_offset segment_start blk_count errorstrat cursor fd filled =
     (let chunk = (if blk_count - cursor > BUFFER_SIZE then BUFFER_SIZE else blk_count - cursor);
          read_block = segment_start + cursor;
          blocks_read = read_ret dvd_file (dvd_offset + int read_block) (int chunk);
          usable_blocks = (if blocks_read = int chunk then chunk
                           else if blocks_read > 0 then nat blocks_read else 0);
          wr = (if usable_blocks > 0
                then pwrite os fd
                       (buffer_bytes dvd_file (dvd_offset + int read_block) (int chunk)
                          (usable_blocks * DVD_VIDEO_LB_LEN))
                       (read_block * DVD_VIDEO_LB_LEN)
                else (0, fd));
          filled' = (if usable_blocks > 0 then filled + usable_blocks else filled);
          remaining = blk_count - (cursor + usable_blocks);
          skip0 = (if errorstrat = STRATEGY_SKIP_BLOCK then 1
                   else (if chunk - usable_blocks = 0 then 1 else chunk - usable_blocks));
          skip_blocks = (if skip0 > remaining then remaining else skip0)
      in if usable_blocks > 0 \<and> fst wr \<noteq> int (usable_blocks * DVD_VIDEO_LB_LEN)
         then Inl (1, snd wr, filled)
         else if usable_blocks < chunk then
           (if remaining = 0 then Inr (blk_count, snd wr, filled')
            else if errorstrat = STRATEGY_ABORT then Inl (1, snd wr, filled')
            else Inr (cursor + usable_blocks + skip_blocks, snd wr, filled'))
         else Inr (cursor + chunk, snd wr, filled'))"

function gap_process_loop ::
  "os_t \<Rightarrow> dvd_file_t \<Rightarrow> int \<Rightarrow> nat \<Rightarrow> nat \<Rightarrow> read_error_strategy_t \<Rightarrow> nat \<Rightarrow> fd_t \<Rightarrow> nat \<Rightarrow>
   int \<times> fd_t \<times> nat" where
  "gap_process_loop os dvd_file dvd_offset segment_start blk_count errorstrat cursor fd filled =
     (if cursor < blk_count then
        (case gap_process_step os dvd_file dvd_offset segment_start blk_count errorstrat
                cursor fd filled of
           Inl res \<Rightarrow> res
         | Inr (cursor', fd', filled') \<Rightarrow>
             gap_process_loop os dvd_file dvd_offset segment_start blk_count errorstrat
               cursor' fd' filled')
      else (0, fd, filled))"
  by pat_completeness auto
termination
proof (relation "measure (\<lambda>(os, d, off, s, n, e, cursor, fd, filled). n - cursor)", goal_cases)
  case 1
  show ?case by simp
next
  case (2 os dvd_file dvd_offset segment_start blk_count errorstrat cursor fd filled x2 cursor' y fd' filled')
  then have st: "gap_process_step os dvd_file dvd_offset segment_start blk_count errorstrat
                   cursor fd filled = Inr (cursor', fd', filled')"
    by simp
  define chunk where
    "chunk = (if blk_count - cursor > BUFFER_SIZE then BUFFER_SIZE else blk_count - cursor)"
  define blocks_read where
    "blocks_read = read_ret dvd_file (dvd_offset + int (segment_start + cursor)) (int chunk)"
  define usable where
    "usable = (if blocks_read = int chunk then chunk
               else if blocks_read > 0 then nat blocks_read else 0)"
  define remaining where "remaining = blk_count - (cursor + usable)"
  define skip0 where
    "skip0 = (if errorstrat = STRATEGY_SKIP_BLOCK then 1
              else (if chunk - usable = 0 then 1 else chunk - usable))"
  define skip where "skip = (if skip0 > remaining then remaining else skip0)"
  have c: "0 < chunk" using 2(1) by (simp add: chunk_def BUFFER_SIZE_def)
  have "0 < skip0" by (simp add: skip0_def)
  then have s: "remaining \<noteq> 0 \<Longrightarrow> 0 < skip" by (simp add: skip_def)
  have "cursor' = blk_count \<or> (remaining \<noteq> 0 \<and> cursor' = cursor + usable + skip) \<or>
        cursor' = cursor + chunk"
    using st
    unfolding gap_process_step_def Let_def chunk_def [symmetric] blocks_read_def [symmetric]
      usable_def [symmetric] remaining_def [symmetric] skip0_def [symmetric] skip_def [symmetric]
    by (simp split: if_splits)
  then have "cursor < cursor'" using 2(1) c s by auto
  with 2 show ?case by auto
qed

declare gap_process_loop.simps [simp del]

definition gap_process_segment ::
  "os_t \<Rightarrow> fd_t \<Rightarrow> dvd_file_t \<Rightarrow> int \<Rightarrow> nat \<Rightarrow> nat \<Rightarrow> read_error_strategy_t \<Rightarrow> nat \<Rightarrow>
   int \<times> fd_t \<times> nat" where
  "gap_process_segment os fd dvd_file dvd_offset segment_start blk_count errorstrat filled =
     gap_process_loop os dvd_file dvd_offset segment_start blk_count errorstrat 0 fd filled"

text \<open>
  \<^verbatim>\<open>gap_fill_from_plan\<close>. The globals \<^verbatim>\<open>gap_strategy\<close>, \<^verbatim>\<open>gap_random_seed\<close> and
  \<^verbatim>\<open>gap_random_seed_set\<close> are the fields of a configuration record. A segment
  (\<^verbatim>\<open>gap_fill_segment_t\<close>) is a pair of start block and block count.

  For \<^verbatim>\<open>GAP_STRATEGY_RANDOM\<close>: \<open>segments_of_range\<close> is the \<^verbatim>\<open>while\<close> loop that cuts one
  range into segments (\<open>None\<close> when \<^verbatim>\<open>realloc\<close> fails), \<open>segments_of_plan\<close> the
  \<^verbatim>\<open>for\<close> loop over the ranges, \<open>shuffle_loop\<close> the Fisher-Yates loop, where \<open>k\<close>
  counts the calls of \<^verbatim>\<open>rand()\<close>, whose values are not negative, and
  \<open>process_segments\<close> the loop that processes the shuffled segments.
\<close>

record gap_config =
  gap_strategy :: gap_strategy_t
  gap_random_seed :: nat
  gap_random_seed_set :: bool

function segments_of_range ::
  "os_t \<Rightarrow> nat \<Rightarrow> nat \<Rightarrow> nat \<Rightarrow> (nat \<times> nat) list \<times> nat \<Rightarrow> ((nat \<times> nat) list \<times> nat) option" where
  "segments_of_range os range_start range_blocks produced (segments, segment_capacity) =
     (if produced < range_blocks then
        (let chunk = (if range_blocks - produced > BUFFER_SIZE then BUFFER_SIZE
                      else range_blocks - produced);
             new_capacity = (if segment_capacity = 0 then 32 else segment_capacity * 2)
         in if length segments = segment_capacity \<and> \<not> realloc_succeeds os new_capacity then None
            else segments_of_range os range_start range_blocks (produced + chunk)
                   (segments @ [(range_start + produced, chunk)],
                    if length segments = segment_capacity then new_capacity
                    else segment_capacity))
      else Some (segments, segment_capacity))"
  by pat_completeness auto
termination
  by (relation "measure (\<lambda>(os, s, n, produced, segs). n - produced)")
     (auto simp: BUFFER_SIZE_def)

fun segments_of_plan ::
  "os_t \<Rightarrow> gap_range list \<Rightarrow> (nat \<times> nat) list \<times> nat \<Rightarrow> ((nat \<times> nat) list \<times> nat) option" where
  "segments_of_plan os [] acc = Some acc"
| "segments_of_plan os (r # rs) acc =
     (case segments_of_range os (start_block r) (block_count r) 0 acc of
        None \<Rightarrow> None
      | Some acc' \<Rightarrow> segments_of_plan os rs acc')"

function shuffle_loop :: "os_t \<Rightarrow> nat \<Rightarrow> nat \<Rightarrow> nat \<Rightarrow> (nat \<times> nat) list \<Rightarrow> (nat \<times> nat) list" where
  "shuffle_loop os seed i k segments =
     (if i > 1 then
        (let j = nat (rand_ret os seed k mod int i)
         in shuffle_loop os seed (i - 1) (Suc k)
              (segments[i - 1 := segments ! j, j := segments ! (i - 1)]))
      else segments)"
  by pat_completeness auto
termination
  by (relation "measure (\<lambda>(os, seed, i, k, segs). i)") auto

fun process_segments ::
  "os_t \<Rightarrow> dvd_file_t \<Rightarrow> int \<Rightarrow> read_error_strategy_t \<Rightarrow> (nat \<times> nat) list \<Rightarrow> fd_t \<Rightarrow> nat \<Rightarrow>
   int \<times> fd_t \<times> nat" where
  "process_segments os dvd_file dvd_offset errorstrat [] fd filled = (0, fd, filled)"
| "process_segments os dvd_file dvd_offset errorstrat ((s, c) # segs) fd filled =
     (case gap_process_segment os fd dvd_file dvd_offset s c errorstrat filled of
        (rc, fd', filled') \<Rightarrow>
          if rc \<noteq> 0 then (1, fd', filled')
          else process_segments os dvd_file dvd_offset errorstrat segs fd' filled')"

text \<open>
  The other strategies work range by range: \<open>reverse_loop\<close> and \<open>outside_in_loop\<close>
  are the \<^verbatim>\<open>while\<close> loops of \<^verbatim>\<open>GAP_STRATEGY_REVERSE\<close> and
  \<^verbatim>\<open>GAP_STRATEGY_OUTSIDE_IN\<close>, \<open>fill_range\<close> is the \<^verbatim>\<open>switch\<close> and \<open>fill_ranges\<close>
  the \<^verbatim>\<open>for\<close> loop over the ranges, which stops when \<^verbatim>\<open>result\<close> is no longer 0.
\<close>

function reverse_loop ::
  "os_t \<Rightarrow> dvd_file_t \<Rightarrow> int \<Rightarrow> read_error_strategy_t \<Rightarrow> nat \<Rightarrow> nat \<Rightarrow> nat \<Rightarrow> fd_t \<Rightarrow> nat \<Rightarrow>
   int \<times> fd_t \<times> nat" where
  "reverse_loop os dvd_file dvd_offset errorstrat range_start range_blocks processed fd filled =
     (if processed < range_blocks then
        (let chunk = (if range_blocks - processed > BUFFER_SIZE then BUFFER_SIZE
                      else range_blocks - processed);
             segment_start = range_start + range_blocks - processed - chunk
         in case gap_process_segment os fd dvd_file dvd_offset segment_start chunk errorstrat filled of
              (rc, fd', filled') \<Rightarrow>
                if rc \<noteq> 0 then (1, fd', filled')
                else reverse_loop os dvd_file dvd_offset errorstrat range_start range_blocks
                       (processed + chunk) fd' filled')
      else (0, fd, filled))"
  by pat_completeness auto
termination
  by (relation "measure (\<lambda>(os, d, off, e, s, n, processed, fd, filled). n - processed)")
     (auto simp: BUFFER_SIZE_def)

function outside_in_loop ::
  "os_t \<Rightarrow> dvd_file_t \<Rightarrow> int \<Rightarrow> read_error_strategy_t \<Rightarrow> nat \<Rightarrow> nat \<Rightarrow> nat \<Rightarrow> bool \<Rightarrow>
   fd_t \<Rightarrow> nat \<Rightarrow> int \<times> fd_t \<times> nat" where
  "outside_in_loop os dvd_file dvd_offset errorstrat range_start front back use_front fd filled =
     (if front < back then
        (let chunk = (if back - front > BUFFER_SIZE then BUFFER_SIZE else back - front);
             segment_start = (if use_front then range_start + front
                              else range_start + (back - chunk))
         in case gap_process_segment os fd dvd_file dvd_offset segment_start chunk errorstrat filled of
              (rc, fd', filled') \<Rightarrow>
                if rc \<noteq> 0 then (1, fd', filled')
                else outside_in_loop os dvd_file dvd_offset errorstrat range_start
                       (if use_front then front + chunk else front)
                       (if use_front then back else back - chunk)
                       (\<not> use_front) fd' filled')
      else (0, fd, filled))"
  by pat_completeness auto
termination
  by (relation "measure (\<lambda>(os, d, off, e, s, front, back, u, fd, filled). back - front)")
     (auto simp: BUFFER_SIZE_def)

declare segments_of_range.simps [simp del] shuffle_loop.simps [simp del]
  reverse_loop.simps [simp del] outside_in_loop.simps [simp del]

definition fill_range ::
  "os_t \<Rightarrow> gap_strategy_t \<Rightarrow> dvd_file_t \<Rightarrow> int \<Rightarrow> read_error_strategy_t \<Rightarrow> gap_range \<Rightarrow>
   fd_t \<Rightarrow> nat \<Rightarrow> int \<times> fd_t \<times> nat" where
  "fill_range os strategy dvd_file dvd_offset errorstrat r fd filled =
     (case strategy of
        GAP_STRATEGY_FORWARD \<Rightarrow>
          (case gap_process_segment os fd dvd_file dvd_offset (start_block r) (block_count r)
                  errorstrat filled of
             (rc, fd', filled') \<Rightarrow> (if rc \<noteq> 0 then 1 else 0, fd', filled'))
      | GAP_STRATEGY_REVERSE \<Rightarrow>
          reverse_loop os dvd_file dvd_offset errorstrat (start_block r) (block_count r) 0 fd filled
      | GAP_STRATEGY_OUTSIDE_IN \<Rightarrow>
          outside_in_loop os dvd_file dvd_offset errorstrat (start_block r) 0 (block_count r) True
            fd filled
      | GAP_STRATEGY_RANDOM \<Rightarrow> (0, fd, filled))"

fun fill_ranges ::
  "os_t \<Rightarrow> gap_strategy_t \<Rightarrow> dvd_file_t \<Rightarrow> int \<Rightarrow> read_error_strategy_t \<Rightarrow> gap_range list \<Rightarrow>
   fd_t \<Rightarrow> nat \<Rightarrow> int \<times> fd_t \<times> nat" where
  "fill_ranges os strategy dvd_file dvd_offset errorstrat [] fd filled = (0, fd, filled)"
| "fill_ranges os strategy dvd_file dvd_offset errorstrat (r # rs) fd filled =
     (case fill_range os strategy dvd_file dvd_offset errorstrat r fd filled of
        (rc, fd', filled') \<Rightarrow>
          if rc \<noteq> 0 then (rc, fd', filled')
          else fill_ranges os strategy dvd_file dvd_offset errorstrat rs fd' filled')"

definition gap_fill_from_plan ::
  "os_t \<Rightarrow> gap_config \<Rightarrow> fd_t \<Rightarrow> dvd_file_t \<Rightarrow> int \<Rightarrow> gap_plan \<Rightarrow> read_error_strategy_t \<Rightarrow>
   int \<times> fd_t \<times> nat" where
  "gap_fill_from_plan os cfg fd dvd_file dvd_offset pl errorstrat =
     (if ranges pl = [] then (0, fd, 0)
      else if malloc_fails os then (1, fd, 0)
      else if gap_strategy cfg = GAP_STRATEGY_RANDOM then
        (case segments_of_plan os (ranges pl) ([], 0) of
           None \<Rightarrow> (1, fd, 0)
         | Some (segments, segment_capacity) \<Rightarrow>
             process_segments os dvd_file dvd_offset errorstrat
               (shuffle_loop os (if gap_random_seed_set cfg then gap_random_seed cfg else 0)
                  (length segments) 0 segments)
               fd 0)
      else fill_ranges os (gap_strategy cfg) dvd_file dvd_offset errorstrat (ranges pl) fd 0)"

text \<open>
  \<^verbatim>\<open>DVDCopyBlocksFillGaps\<close>. \<^verbatim>\<open>size\<close> is not negative in any call (a file size
  divided by 2048), and the argument here is \<^verbatim>\<open>(size_t)size\<close>. The result holds the
  return value, the file as the call leaves it and the numbers handed to
  \<^verbatim>\<open>gap_print_report\<close>, if the call gets that far. \<open>os2\<close> is the operating
  system's side of the scan that runs after the refill. \<open>refresh_plan\<close> is the first
  part of the function, the scan and the range for the blocks the file is short of; it
  yields the plan, \<^verbatim>\<open>blank_blocks\<close> and \<^verbatim>\<open>truncated_blocks\<close>, and \<open>None\<close> where the
  function returns 1.
\<close>

record gap_report =
  blank_before :: nat
  truncated_before :: nat
  blank_after :: nat
  truncated_after :: nat
  filled_blocks :: nat

record refresh_result =
  rr_result :: int
  rr_destination :: fd_t
  rr_report :: "gap_report option"

definition refresh_plan :: "os_t \<Rightarrow> byte list \<Rightarrow> nat \<Rightarrow> (gap_plan \<times> nat \<times> nat) option" where
  "refresh_plan os f sz =
     (case scan_existing_file_for_gaps os f sz empty_plan of
        Inl e \<Rightarrow> None
      | Inr sr \<Rightarrow>
          (let existing_blocks = (if sz < sr_full_blocks sr then sz else sr_full_blocks sr)
           in if sz > existing_blocks then
                (case gap_plan_add (realloc_succeeds os) (sr_plan sr) existing_blocks
                        (sz - existing_blocks) of
                   (rc, pl) \<Rightarrow>
                     if rc \<noteq> 0 then None
                     else Some (pl, sr_blank_blocks sr, sz - existing_blocks))
              else Some (sr_plan sr, sr_blank_blocks sr, 0)))"

definition DVDCopyBlocksFillGaps ::
  "os_t \<Rightarrow> os_t \<Rightarrow> gap_config \<Rightarrow> dvd_file_t \<Rightarrow> fd_t \<Rightarrow> int \<Rightarrow> nat \<Rightarrow> read_error_strategy_t \<Rightarrow>
   refresh_result" where
  "DVDCopyBlocksFillGaps os os2 cfg dvd_file destination offset sz errorstrat =
     (case refresh_plan os (content destination) sz of
        None \<Rightarrow> \<lparr>rr_result = 1, rr_destination = destination, rr_report = None\<rparr>
      | Some (pl, blank_blks, truncated_blks) \<Rightarrow>
          (let sample_slots = gap_collect_samples pl sz GAP_SAMPLE_TARGET
           in if length sample_slots > 0 \<and>
                 gap_verify_samples os (content destination) dvd_file offset sample_slots \<noteq> 0
              then \<lparr>rr_result = 1, rr_destination = destination, rr_report = None\<rparr>
              else
                (case gap_fill_from_plan os cfg destination dvd_file offset pl errorstrat of
                   (fill_status, fd', filled) \<Rightarrow>
                     (let after =
                            (if fill_status = 0 then
                               (case scan_existing_file_for_gaps os2 (content fd') sz empty_plan of
                                  Inr v \<Rightarrow>
                                    (sr_blank_blocks v,
                                     if sz > sr_full_blocks v then sz - sr_full_blocks v else 0)
                                | Inl e \<Rightarrow> (blank_blks, truncated_blks))
                             else (blank_blks, truncated_blks))
                      in \<lparr>rr_result = (if fill_status \<noteq> 0 then 1 else 0),
                          rr_destination = fd',
                          rr_report = Some \<lparr>blank_before = blank_blks,
                                             truncated_before = truncated_blks,
                                             blank_after = fst after,
                                             truncated_after = snd after,
                                             filled_blocks = filled\<rparr>\<rparr>))))"

section \<open>Writing cells into title VOBs of at most 1 GiB\<close>

text \<open>
  \<^verbatim>\<open>finalize_vob_file\<close> for an open descriptor: in refresh mode (\<^verbatim>\<open>fill_gaps\<close>) it
  returns 0 at once, otherwise it truncates the file to \<^verbatim>\<open>size_blocks\<close> blocks.
\<close>

definition ftruncate :: "byte list \<Rightarrow> nat \<Rightarrow> byte list" where
  "ftruncate f new_size = take new_size (f @ replicate (new_size - length f) 0)"

definition finalize_vob_file :: "os_t \<Rightarrow> bool \<Rightarrow> fd_t \<Rightarrow> nat \<Rightarrow> int \<times> fd_t" where
  "finalize_vob_file os fill_gaps streamout size_blocks =
     (if fill_gaps then (0, streamout)
      else if ftruncate_fails os then (-1, streamout)
      else (0, streamout\<lparr>content := ftruncate (content streamout)
                                      (size_blocks * DVD_VIDEO_LB_LEN)\<rparr>))"

text \<open>
  \<^verbatim>\<open>DVDWriteCells\<close> outside refresh mode, from the point where the first output file
  and the disc are open. The old output files have been unlinked, so every output file
  starts empty, and it is opened with \<^verbatim>\<open>O_APPEND\<close>. The variables the loops change are
  \<^verbatim>\<open>vob\<close>, \<^verbatim>\<open>size\<close>, the open file \<^verbatim>\<open>streamout\<close> and the files already closed, kept
  with their part numbers. \<open>write_cells_step\<close> is one pass through the body of
  \<^verbatim>\<open>while (left > 0)\<close>: \<open>Inl\<close> is a \<^verbatim>\<open>goto cleanup\<close> with \<^verbatim>\<open>result = 1\<close> and
  carries the output files as they are left, \<open>Inr\<close> carries \<^verbatim>\<open>soffset\<close>, \<^verbatim>\<open>left\<close>
  and the variables for the next pass.
\<close>

record cells_state =
  ws_vob :: int
  ws_size :: int
  ws_streamout :: fd_t
  ws_closed :: "(int \<times> fd_t) list"

definition write_cells_step ::
  "os_t \<Rightarrow> dvd_file_t \<Rightarrow> int \<Rightarrow> int \<Rightarrow> cells_state \<Rightarrow>
   (int \<times> fd_t) list + (int \<times> int \<times> cells_state)" where
  "write_cells_step os dvd_file soffset left st =
     (let to_read0 = (if left + ws_size st > MAX_VOB_SIZE then MAX_VOB_SIZE - ws_size st else left);
          to_read = (if to_read0 > int BUFFER_SIZE then int BUFFER_SIZE else to_read0);
          have_read = read_ret dvd_file soffset to_read
      in if have_read < 0 then Inl (ws_closed st @ [(ws_vob st, ws_streamout st)])
         else if have_read = 0 then Inl (ws_closed st @ [(ws_vob st, ws_streamout st)])
         else
           (let wr = write_seq os (ws_streamout st)
                       (buffer_bytes dvd_file soffset to_read
                          (nat (have_read * int DVD_VIDEO_LB_LEN)))
            in if fst wr \<noteq> have_read * int DVD_VIDEO_LB_LEN
               then Inl (ws_closed st @ [(ws_vob st, snd wr)])
               else
                 (let soffset' = soffset + have_read;
                      left' = left - have_read;
                      size' = ws_size st + have_read
                  in if size' \<ge> MAX_VOB_SIZE \<and> left' > 0 then
                       (case finalize_vob_file os False (snd wr) (nat size') of
                          (rc, fin) \<Rightarrow>
                            if rc \<noteq> 0 then Inl (ws_closed st @ [(ws_vob st, fin)])
                            else if open_fails os (ws_vob st + 1)
                            then Inl (ws_closed st @ [(ws_vob st, fin)])
                            else Inr (soffset', left',
                                      \<lparr>ws_vob = ws_vob st + 1, ws_size = 0,
                                       ws_streamout = \<lparr>content = [], writes = []\<rparr>,
                                       ws_closed = ws_closed st @ [(ws_vob st, fin)]\<rparr>))
                     else Inr (soffset', left',
                               st\<lparr>ws_size := size', ws_streamout := snd wr\<rparr>))))"

function write_cell_loop ::
  "os_t \<Rightarrow> dvd_file_t \<Rightarrow> int \<Rightarrow> int \<Rightarrow> cells_state \<Rightarrow> (int \<times> fd_t) list + cells_state" where
  "write_cell_loop os dvd_file soffset left st =
     (if left > 0 then
        (case write_cells_step os dvd_file soffset left st of
           Inl files \<Rightarrow> Inl files
         | Inr (soffset', left', st') \<Rightarrow> write_cell_loop os dvd_file soffset' left' st')
      else Inr st)"
  by pat_completeness auto
termination
proof (relation "measure (\<lambda>(os, d, soffset, left, st). nat left)", goal_cases)
  case 1
  show ?case by simp
next
  case (2 os dvd_file soffset left st x2 soffset' y left' st')
  then have s: "write_cells_step os dvd_file soffset left st = Inr (soffset', left', st')"
    by simp
  have "left' < left"
    using s unfolding write_cells_step_def Let_def
    by (simp split: if_splits prod.splits)
  with 2 show ?case by auto
qed

declare write_cell_loop.simps [simp del]

text \<open>
  The \<^verbatim>\<open>for\<close> loop over the cells, where
  \<^verbatim>\<open>left = cell_end_sector[i] - cell_start_sector[i]\<close>, and the function from the
  first \<^verbatim>\<open>open\<close> on. The result is the return value and the output files with their
  part numbers as the call leaves them, the last one being the file that was open at
  the end.
\<close>

fun write_cells_loop ::
  "os_t \<Rightarrow> dvd_file_t \<Rightarrow> (int \<times> int) list \<Rightarrow> cells_state \<Rightarrow> (int \<times> fd_t) list + cells_state" where
  "write_cells_loop os dvd_file [] st = Inr st"
| "write_cells_loop os dvd_file ((cell_start, cell_end) # cells) st =
     (case write_cell_loop os dvd_file cell_start (cell_end - cell_start) st of
        Inl files \<Rightarrow> Inl files
      | Inr st' \<Rightarrow> write_cells_loop os dvd_file cells st')"

definition DVDWriteCells ::
  "os_t \<Rightarrow> dvd_file_t \<Rightarrow> int list \<Rightarrow> int list \<Rightarrow> int \<times> (int \<times> fd_t) list" where
  "DVDWriteCells os dvd_file cell_start_sector cell_end_sector =
     (if open_fails os 1 then (1, [])
      else
        (case write_cells_loop os dvd_file (zip cell_start_sector cell_end_sector)
                \<lparr>ws_vob = 1, ws_size = 0, ws_streamout = \<lparr>content = [], writes = []\<rparr>,
                 ws_closed = []\<rparr> of
           Inl files \<Rightarrow> (1, files)
         | Inr st \<Rightarrow>
             (case finalize_vob_file os False (ws_streamout st) (nat (ws_size st)) of
                (frc, fin) \<Rightarrow>
                  (if frc \<noteq> 0 then 1 else 0, ws_closed st @ [(ws_vob st, fin)]))))"

text \<open>A disc without read errors: every read returns as many blocks as were asked for.\<close>

definition perfect_disc :: dvd_file_t where
  "perfect_disc = \<lparr>read_ret = (\<lambda>offset n. n), read_data = (\<lambda>offset n k. 1)\<rparr>"

section \<open>What a refresh may change\<close>

text \<open>
  The vocabulary for the effect of a refresh on the output file. \<open>frame P bound f f'\<close>:
  the file \<open>f'\<close> is \<open>f\<close>, possibly grown up to \<open>bound\<close> bytes, with every byte whose
  position does not satisfy \<open>P\<close> as it was (a position past the old end that was never
  written reads as 0). \<open>writes_ok P ws\<close>: every write of the log \<open>ws\<close> starts on a block
  boundary and covers only positions satisfying \<open>P\<close>. \<open>refill_rel\<close> is both, for a file
  descriptor before and after; \<open>seg_ok\<close> says that the blocks \<open>s ..< s + c\<close> lie inside
  \<open>P\<close> and below \<open>bound\<close>.
\<close>

definition frame :: "(nat \<Rightarrow> bool) \<Rightarrow> nat \<Rightarrow> byte list \<Rightarrow> byte list \<Rightarrow> bool" where
  "frame P bound f f' =
     (length f \<le> length f' \<and> length f' \<le> max (length f) bound \<and>
      (\<forall>i < length f'. \<not> P i \<longrightarrow> f' ! i = (if i < length f then f ! i else 0)))"

definition writes_ok :: "(nat \<Rightarrow> bool) \<Rightarrow> (nat \<times> nat) list \<Rightarrow> bool" where
  "writes_ok P ws =
     (\<forall>w \<in> set ws. fst w mod DVD_VIDEO_LB_LEN = 0 \<and>
        (\<forall>i. fst w \<le> i \<and> i < fst w + snd w \<longrightarrow> P i))"

definition refill_rel :: "(nat \<Rightarrow> bool) \<Rightarrow> nat \<Rightarrow> fd_t \<Rightarrow> fd_t \<Rightarrow> bool" where
  "refill_rel P bound fd fd' =
     ((\<exists>new. writes fd' = writes fd @ new \<and> writes_ok P new) \<and>
      frame P bound (content fd) (content fd'))"

definition seg_ok :: "(nat \<Rightarrow> bool) \<Rightarrow> nat \<Rightarrow> nat \<Rightarrow> nat \<Rightarrow> bool" where
  "seg_ok P bound s c =
     ((\<forall>i. s * DVD_VIDEO_LB_LEN \<le> i \<and> i < (s + c) * DVD_VIDEO_LB_LEN \<longrightarrow> P i) \<and>
      (s + c) * DVD_VIDEO_LB_LEN \<le> bound)"

text \<open>
  The blocks a refresh is meant to fill: a block of the expected range that is all
  zeros in the existing file, or that lies at or after the last full block of the file.
  \<open>target_byte\<close> is the same for a byte position, and \<open>gap_count\<close> counts the blocks
  of the expected range that are still to be filled.
\<close>

definition refill_target :: "byte list \<Rightarrow> nat \<Rightarrow> nat \<Rightarrow> bool" where
  "refill_target f expected_blocks b =
     (b < expected_blocks \<and> (blank_block f b \<or> length f div DVD_VIDEO_LB_LEN \<le> b))"

definition target_byte :: "byte list \<Rightarrow> nat \<Rightarrow> nat \<Rightarrow> bool" where
  "target_byte f expected_blocks i = refill_target f expected_blocks (i div DVD_VIDEO_LB_LEN)"

definition gap_count :: "byte list \<Rightarrow> nat \<Rightarrow> nat" where
  "gap_count f expected_blocks =
     length (filter (refill_target f expected_blocks) [0 ..< expected_blocks])"

text \<open>
  A disc on which every block reads as zeros, and the default traversal of the plan.
\<close>

definition zero_disc :: dvd_file_t where
  "zero_disc = \<lparr>read_ret = (\<lambda>offset n. n), read_data = (\<lambda>offset n k. 0)\<rparr>"

definition forward_config :: gap_config where
  "forward_config = \<lparr>gap_strategy = GAP_STRATEGY_FORWARD, gap_random_seed = 0,
                      gap_random_seed_set = False\<rparr>"

text \<open>
  What holds between two passes of the loops of \<^verbatim>\<open>DVDWriteCells\<close>: \<^verbatim>\<open>size\<close> is between 0
  and \<^verbatim>\<open>MAX_VOB_SIZE\<close> and is the length of the open file in blocks, every closed file
  has at most 1 GiB, and the files are numbered from 1 upwards, the open one last.
\<close>

definition cells_inv :: "cells_state \<Rightarrow> bool" where
  "cells_inv st =
     (0 \<le> ws_size st \<and> ws_size st \<le> MAX_VOB_SIZE \<and>
      length (content (ws_streamout st)) = nat (ws_size st) * DVD_VIDEO_LB_LEN \<and>
      list_all (\<lambda>f. length (content (snd f)) \<le> 1073741824) (ws_closed st) \<and>
      map fst (ws_closed st) = map int [1 ..< 1 + length (ws_closed st)] \<and>
      ws_vob st = 1 + int (length (ws_closed st)))"

section \<open>Properties of the feature guesser's chapter rank\<close>


lemma chapter_rank_loop_miss:
  "(\<forall>j. i \<le> j \<and> j < length a \<and> j < 4 \<longrightarrow> a ! j \<noteq> c) \<Longrightarrow> chapter_rank_loop c a i d = d"
proof (induction c a i d rule: chapter_rank_loop.induct)
  case (1 c a i d)
  show ?case
  proof (cases "i < length a \<and> i < 4")
    case True
    with "1.prems" have ne: "c \<noteq> a ! i" by auto
    have "chapter_rank_loop c a (Suc i) d = d"
      using "1.IH" [OF True ne] "1.prems" by auto
    with True ne show ?thesis by (simp add: chapter_rank_loop.simps [of c a i d])
  next
    case False
    then show ?thesis by (auto simp: chapter_rank_loop.simps [of c a i d])
  qed
qed

lemma chapter_rank_loop_hit:
  "i \<le> k \<Longrightarrow> k < length a \<Longrightarrow> k < 4 \<Longrightarrow> a ! k = c \<Longrightarrow>
   (\<forall>j. i \<le> j \<and> j < k \<longrightarrow> a ! j \<noteq> c) \<Longrightarrow> chapter_rank_loop c a i d = int k + 1"
proof (induction c a i d rule: chapter_rank_loop.induct)
  case (1 c a i d)
  from "1.prems" have T: "i < length a \<and> i < 4" by auto
  show ?case
  proof (cases "i = k")
    case True
    from "1.prems" True have "a ! i = c" by simp
    with T have "chapter_rank_loop c a i d = int i + 1"
      by (simp add: chapter_rank_loop.simps [of c a i d])
    with True show ?thesis by simp
  next
    case False
    with "1.prems" have ne: "c \<noteq> a ! i" and lt: "Suc i \<le> k" by auto
    have "chapter_rank_loop c a (Suc i) d = int k + 1"
      using "1.IH" [OF T ne lt] "1.prems" by auto
    with T ne show ?thesis by (simp add: chapter_rank_loop.simps [of c a i d])
  qed
qed


text \<open>
  Claim C8, as the code has it. Whenever the chapter rank of the candidate is computed, it
  is the 1-based position of the candidate's first occurrence among the first four entries
  of the chapter ranking when there is one. When there is none, the first computation
  yields 6 and the computation of the fall-through path yields 5.
\<close>

theorem C8_chapter_rank:
  "(k < length a \<and> k < 4 \<and> a ! k = c \<and> (\<forall>j<k. a ! j \<noteq> c) \<longrightarrow>
      found_chapter_first c a = int k + 1 \<and> found_chapter_retest c a = int k + 1) \<and>
   ((\<forall>j. j < length a \<and> j < 4 \<longrightarrow> a ! j \<noteq> c) \<longrightarrow>
      found_chapter_first c a = 6 \<and> found_chapter_retest c a = 5)"
  unfolding found_chapter_first_def found_chapter_retest_def
  using chapter_rank_loop_hit [of 0 k a c] chapter_rank_loop_miss [of 0 a c]
  by auto

theorem C8_chapter_rank_witness:
  "found_chapter_first 2 [1, 2, 2] = 2 \<and> found_chapter_retest 2 [1, 2, 2] = 2 \<and>
   found_chapter_first 3 [1, 2] = 6 \<and> found_chapter_retest 3 [1, 2] = 5"
proof -
  have miss: "\<forall>j. j < length [1, 2 :: int] \<and> j < 4 \<longrightarrow> [1, 2 :: int] ! j \<noteq> 3"
    by (auto simp: less_Suc_eq)
  have hit: "1 < length [1, 2, 2 :: int] \<and> (1 :: nat) < 4 \<and> [1, 2, 2 :: int] ! 1 = 2 \<and>
             (\<forall>j<1. [1, 2, 2 :: int] ! j \<noteq> 2)"
    by simp
  show ?thesis
    using C8_chapter_rank [of 1 "[1, 2, 2]" 2] C8_chapter_rank [of 0 "[1, 2]" 3] miss hit
    by simp
qed

text \<open>
  The claim as stated gives 6 for a candidate outside the top four in both computations.
  With the chapter ranking \<open>[1, 2]\<close> and candidate 3, the computation of the
  fall-through path yields 5.
\<close>

theorem C8_retest_counterexample:
  "3 \<notin> set (take 4 [1, 2 :: int]) \<and> found_chapter_retest 3 [1, 2] \<noteq> 6"
  by (simp add: found_chapter_retest_def chapter_rank_loop.simps)

section \<open>Properties of the gap plan\<close>


lemma plan_ordered_Nil: "plan_ordered []"
  by (simp add: plan_ordered_def)

lemma plan_ordered_single: "plan_ordered [r]"
  by (simp add: plan_ordered_def)

lemma plan_ordered_snoc:
  "plan_ordered (rs @ [r]) \<longleftrightarrow>
     plan_ordered rs \<and> (\<forall>q \<in> set rs. start_block q + block_count q < start_block r)"
proof
  assume a: "plan_ordered (rs @ [r])"
  have "plan_ordered rs"
    unfolding plan_ordered_def
  proof (intro allI impI)
    fix j i assume ji: "j < length rs" "i < j"
    then have "j < length (rs @ [r])" by simp
    with a ji(2) have "start_block ((rs @ [r]) ! i) + block_count ((rs @ [r]) ! i)
                   < start_block ((rs @ [r]) ! j)"
      unfolding plan_ordered_def by blast
    with ji show "start_block (rs ! i) + block_count (rs ! i) < start_block (rs ! j)"
      by (simp add: nth_append)
  qed
  moreover have "\<forall>q \<in> set rs. start_block q + block_count q < start_block r"
  proof
    fix q assume "q \<in> set rs"
    then obtain i where i: "i < length rs" "rs ! i = q" by (auto simp: in_set_conv_nth)
    have "length rs < length (rs @ [r])" by simp
    with a i(1) have "start_block ((rs @ [r]) ! i) + block_count ((rs @ [r]) ! i)
                   < start_block ((rs @ [r]) ! length rs)"
      unfolding plan_ordered_def by blast
    with i show "start_block q + block_count q < start_block r"
      by (simp add: nth_append)
  qed
  ultimately show "plan_ordered rs \<and> (\<forall>q \<in> set rs. start_block q + block_count q < start_block r)"
    by simp
next
  assume a: "plan_ordered rs \<and> (\<forall>q \<in> set rs. start_block q + block_count q < start_block r)"
  show "plan_ordered (rs @ [r])"
    unfolding plan_ordered_def
  proof (intro allI impI)
    fix j i assume j: "j < length (rs @ [r])" and i: "i < j"
    show "start_block ((rs @ [r]) ! i) + block_count ((rs @ [r]) ! i) < start_block ((rs @ [r]) ! j)"
    proof (cases "j < length rs")
      case True
      with a i show ?thesis by (simp add: plan_ordered_def nth_append)
    next
      case False
      with j have "j = length rs" by simp
      with a i show ?thesis by (simp add: nth_append)
    qed
  qed
qed

lemma plan_ordered_butlast:
  "rs \<noteq> [] \<Longrightarrow> plan_ordered rs \<longleftrightarrow>
     plan_ordered (butlast rs) \<and>
     (\<forall>q \<in> set (butlast rs). start_block q + block_count q < start_block (last rs))"
  using plan_ordered_snoc [of "butlast rs" "last rs"] by simp

lemma gap_plan_add_preserves:
  assumes "plan_ordered (ranges plan)"
  shows "plan_ordered (ranges (snd (gap_plan_add realloc_ok plan s c)))"
proof (cases "ranges plan = []")
  case True
  then show ?thesis
    by (simp add: gap_plan_add_def Let_def plan_ordered_single plan_ordered_Nil)
next
  case False
  from assms False have bl: "plan_ordered (butlast (ranges plan))"
    and lt: "\<forall>q \<in> set (butlast (ranges plan)).
               start_block q + block_count q < start_block (last (ranges plan))"
    using plan_ordered_butlast by blast+
  have all: "\<forall>q \<in> set (ranges plan).
     start_block q + block_count q \<le> start_block (last (ranges plan)) + block_count (last (ranges plan))"
  proof
    fix q assume "q \<in> set (ranges plan)"
    then have "q \<in> set (butlast (ranges plan) @ [last (ranges plan)])"
      using False by simp
    then have "q \<in> set (butlast (ranges plan)) \<or> q = last (ranges plan)"
      by auto
    then show "start_block q + block_count q \<le> start_block (last (ranges plan)) + block_count (last (ranges plan))"
      using lt by auto
  qed
  let ?l = "last (ranges plan)"
  have rp: "ranges plan = butlast (ranges plan) @ [?l]" using False by simp
  consider (zero) "c = 0"
    | (merge1) "c \<noteq> 0" "s \<le> start_block ?l + block_count ?l" "s + c > start_block ?l + block_count ?l"
    | (merge2) "c \<noteq> 0" "s \<le> start_block ?l + block_count ?l" "\<not> s + c > start_block ?l + block_count ?l"
    | (app) "c \<noteq> 0" "\<not> s \<le> start_block ?l + block_count ?l"
    by blast
  then show ?thesis
  proof cases
    case zero
    then have "gap_plan_add realloc_ok plan s c = (0, plan)" by (simp add: gap_plan_add_def)
    with assms show ?thesis by simp
  next
    case merge1
    have po: "plan_ordered (butlast (ranges plan) @ [?l\<lparr>block_count := s + c - start_block ?l\<rparr>])"
      unfolding plan_ordered_snoc using bl lt by simp
    have "gap_plan_add realloc_ok plan s c =
            (0, plan\<lparr>ranges := butlast (ranges plan) @ [?l\<lparr>block_count := s + c - start_block ?l\<rparr>]\<rparr>)"
      unfolding gap_plan_add_def Let_def using merge1 False by simp
    with po show ?thesis by simp
  next
    case merge2
    have "gap_plan_add realloc_ok plan s c = (0, plan)"
      unfolding gap_plan_add_def Let_def using merge2 False by simp
    with assms show ?thesis by simp
  next
    case app
    have po: "plan_ordered (ranges plan @ [\<lparr>start_block = s, block_count = c\<rparr>])"
      unfolding plan_ordered_snoc using assms all app(2) by fastforce
    have "ranges (snd (gap_plan_add realloc_ok plan s c)) = ranges plan
          \<or> ranges (snd (gap_plan_add realloc_ok plan s c)) = ranges plan @ [\<lparr>start_block = s, block_count = c\<rparr>]"
      unfolding gap_plan_add_def Let_def using app False by simp
    with po assms show ?thesis by auto
  qed
qed

lemma gap_plan_add_all_preserves:
  "plan_ordered (ranges plan) \<Longrightarrow>
   plan_ordered (ranges (snd (gap_plan_add_all realloc_ok plan xs)))"
proof (induction xs arbitrary: plan)
  case Nil
  then show ?case by simp
next
  case (Cons x xs)
  obtain s c where x: "x = (s, c)" by (cases x)
  obtain rc plan' where r: "gap_plan_add realloc_ok plan s c = (rc, plan')"
    by (cases "gap_plan_add realloc_ok plan s c")
  have "plan_ordered (ranges plan')"
    using gap_plan_add_preserves [OF Cons.prems, of realloc_ok s c] r by simp
  then show ?case
    using Cons.IH [of plan'] x r by simp
qed

lemma gap_plan_add_zero: "gap_plan_add realloc_ok plan s 0 = (0, plan)"
  by (simp add: gap_plan_add_def)




lemma gap_plan_add_coalesce:
  assumes "ranges plan \<noteq> []" "0 < c"
    and "s \<le> start_block (last (ranges plan)) + block_count (last (ranges plan))"
  shows "gap_plan_add realloc_ok plan s c =
           (0, plan\<lparr>ranges := butlast (ranges plan) @
                 [(last (ranges plan))\<lparr>block_count :=
                     max (block_count (last (ranges plan))) (s + c - start_block (last (ranges plan)))\<rparr>]\<rparr>)"
proof (cases "s + c > start_block (last (ranges plan)) + block_count (last (ranges plan))")
  case True
  then have "max (block_count (last (ranges plan))) (s + c - start_block (last (ranges plan)))
               = s + c - start_block (last (ranges plan))"
    by simp
  with True assms show ?thesis
    by (simp add: gap_plan_add_def Let_def)
next
  case False
  then have m: "max (block_count (last (ranges plan))) (s + c - start_block (last (ranges plan)))
               = block_count (last (ranges plan))"
    by simp
  have "butlast (ranges plan) @ [(last (ranges plan))\<lparr>block_count := block_count (last (ranges plan))\<rparr>]
          = ranges plan"
    using assms(1) by simp
  with False assms m show ?thesis
    by (simp add: gap_plan_add_def Let_def)
qed


text \<open>
  Claim C2. Every plan built from the empty plan by insertions through
  \<^verbatim>\<open>gap_plan_add\<close> is ordered and disjoint: each range ends strictly before
  every later range starts. One insertion keeps a plan ordered and disjoint. An
  insertion with a positive count whose start lies within the last range or at its end
  is merged into the last range (the number of ranges stays the same, the last range
  keeps its start and ends at the larger of the two ends), and an insertion with count
  zero leaves the plan as it is.
\<close>

theorem C2_gap_plan_ordered:
  "plan_ordered (ranges (snd (gap_plan_add_all realloc_ok empty_plan xs))) \<and>
   (plan_ordered (ranges plan) \<longrightarrow>
      plan_ordered (ranges (snd (gap_plan_add realloc_ok plan s c)))) \<and>
   (ranges plan \<noteq> [] \<and> 0 < c \<and> start_block (last (ranges plan)) \<le> s \<and>
    s \<le> start_block (last (ranges plan)) + block_count (last (ranges plan)) \<longrightarrow>
      gap_plan_add realloc_ok plan s c =
        (0, plan\<lparr>ranges := butlast (ranges plan) @
              [(last (ranges plan))\<lparr>block_count :=
                  max (block_count (last (ranges plan)))
                      (s + c - start_block (last (ranges plan)))\<rparr>]\<rparr>)) \<and>
   gap_plan_add realloc_ok plan s 0 = (0, plan)"
  using gap_plan_add_all_preserves [of empty_plan realloc_ok xs]
    gap_plan_add_preserves [of plan realloc_ok s c]
    gap_plan_add_coalesce [of plan c s realloc_ok]
    gap_plan_add_zero [of realloc_ok plan s]
  by (simp add: empty_plan_def plan_ordered_Nil)

theorem C2_gap_plan_ordered_witness:
  "plan_ordered [\<lparr>start_block = 0, block_count = 5\<rparr>] \<and>
   gap_plan_add (\<lambda>n. True) \<lparr>ranges = [\<lparr>start_block = 0, block_count = 5\<rparr>], capacity = 8\<rparr> 5 2 =
     (0, \<lparr>ranges = [\<lparr>start_block = 0, block_count = 7\<rparr>], capacity = 8\<rparr>) \<and>
   plan_ordered [\<lparr>start_block = 0, block_count = 7\<rparr>]"
proof -
  have h: "plan_ordered [\<lparr>start_block = 0, block_count = 5\<rparr>]"
    by (rule plan_ordered_single)
  show ?thesis
    using h C2_gap_plan_ordered [of "\<lambda>n. True" "[(0, 2), (2, 3)]"
        "\<lparr>ranges = [\<lparr>start_block = 0, block_count = 5\<rparr>], capacity = 8\<rparr>" 5 2]
    by (simp add: plan_ordered_single)
qed

section \<open>Properties of the chapter extractor\<close>









lemma sorted_upto_mono: "sorted_upto xs i \<Longrightarrow> k \<le> i \<Longrightarrow> sorted_upto xs k"
  unfolding sorted_upto_def by auto








section \<open>Properties of the verification sampling\<close>


lemma plan_ordered_Cons:
  "plan_ordered (r # rs) \<longleftrightarrow>
     plan_ordered rs \<and> (\<forall>q \<in> set rs. start_block r + block_count r < start_block q)"
proof
  assume a: "plan_ordered (r # rs)"
  have "plan_ordered rs"
    unfolding plan_ordered_def
  proof (intro allI impI)
    fix j i assume ji: "j < length rs" "i < j"
    then have "Suc j < length (r # rs)" "Suc i < Suc j" by simp_all
    with a have "start_block ((r # rs) ! Suc i) + block_count ((r # rs) ! Suc i)
                   < start_block ((r # rs) ! Suc j)"
      unfolding plan_ordered_def by blast
    then show "start_block (rs ! i) + block_count (rs ! i) < start_block (rs ! j)" by simp
  qed
  moreover have "\<forall>q \<in> set rs. start_block r + block_count r < start_block q"
  proof
    fix q assume "q \<in> set rs"
    then obtain j where j: "j < length rs" "rs ! j = q" by (auto simp: in_set_conv_nth)
    then have "Suc j < length (r # rs)" "0 < Suc j" by simp_all
    with a have "start_block ((r # rs) ! 0) + block_count ((r # rs) ! 0)
                   < start_block ((r # rs) ! Suc j)"
      unfolding plan_ordered_def by blast
    with j show "start_block r + block_count r < start_block q" by simp
  qed
  ultimately show "plan_ordered rs \<and> (\<forall>q \<in> set rs. start_block r + block_count r < start_block q)"
    by simp
next
  assume a: "plan_ordered rs \<and> (\<forall>q \<in> set rs. start_block r + block_count r < start_block q)"
  show "plan_ordered (r # rs)"
    unfolding plan_ordered_def
  proof (intro allI impI)
    fix j i assume j: "j < length (r # rs)" and i: "i < j"
    then obtain j' where j': "j = Suc j'" "j' < length rs" by (cases j) auto
    show "start_block ((r # rs) ! i) + block_count ((r # rs) ! i) < start_block ((r # rs) ! j)"
    proof (cases i)
      case 0
      with a j' show ?thesis by simp
    next
      case (Suc i')
      with a i j' show ?thesis by (simp add: plan_ordered_def)
    qed
  qed
qed

lemma gap_contains_loop_in_gap:
  "plan_ordered rs \<Longrightarrow> gap_contains_loop rs b = in_gap rs b"
proof (induction rs)
  case Nil
  then show ?case by (simp add: in_gap_def)
next
  case (Cons r rs)
  from Cons.prems have po: "plan_ordered rs"
    and lt: "\<forall>q \<in> set rs. start_block r + block_count r < start_block q"
    by (simp_all add: plan_ordered_Cons)
  have ih: "gap_contains_loop rs b = in_gap rs b" using Cons.IH po by simp
  show ?case
  proof (cases "b < start_block r")
    case True
    then have "\<not> in_gap (r # rs) b" using lt by (fastforce simp: in_gap_def)
    with True show ?thesis by simp
  next
    case False
    then show ?thesis using ih by (auto simp: in_gap_def)
  qed
qed

lemma gap_plan_contains_in_gap:
  "plan_ordered (ranges plan) \<Longrightarrow> gap_plan_contains plan b = in_gap (ranges plan) b"
  by (simp add: gap_plan_contains_def gap_contains_loop_in_gap)

lemma forward_walk_find:
  "f \<le> E \<Longrightarrow>
   find (\<lambda>b. \<not> gap_plan_contains plan b) [f ..< E] =
     (if forward_walk plan E f < E then Some (forward_walk plan E f) else None)"
proof (induction plan E f rule: forward_walk.induct)
  case (1 plan E f)
  show ?case
  proof (cases "f < E")
    case False
    then show ?thesis by (simp add: forward_walk.simps [of plan E f])
  next
    case True
    then have u: "[f ..< E] = f # [Suc f ..< E]" by (simp add: upt_conv_Cons)
    show ?thesis
    proof (cases "gap_plan_contains plan f")
      case c: True
      have "forward_walk plan E f = forward_walk plan E (f + 1)"
        using True c by (simp add: forward_walk.simps [of plan E f])
      moreover have "find (\<lambda>b. \<not> gap_plan_contains plan b) [Suc f ..< E] =
        (if forward_walk plan E (f + 1) < E then Some (forward_walk plan E (f + 1)) else None)"
        using "1.IH" True c by simp
      ultimately show ?thesis using u c by simp
    next
      case c: False
      have "forward_walk plan E f = f"
        using c by (simp add: forward_walk.simps [of plan E f])
      then show ?thesis using u c True by simp
    qed
  qed
qed

lemma forward_walk_ge: "f \<le> forward_walk plan E f"
proof (induction plan E f rule: forward_walk.induct)
  case (1 plan E f)
  show ?case
  proof (cases "f < E \<and> gap_plan_contains plan f")
    case True
    then have "forward_walk plan E f = forward_walk plan E (f + 1)"
      by (simp add: forward_walk.simps [of plan E f])
    with "1.IH" [OF True] show ?thesis by simp
  next
    case False
    then have "forward_walk plan E f = f"
      by (auto simp: forward_walk.simps [of plan E f])
    then show ?thesis by simp
  qed
qed

lemma forward_walk_not_in:
  "forward_walk plan E f < E \<Longrightarrow> \<not> gap_plan_contains plan (forward_walk plan E f)"
proof (induction plan E f rule: forward_walk.induct)
  case (1 plan E f)
  show ?case
  proof (cases "f < E \<and> gap_plan_contains plan f")
    case True
    then have e: "forward_walk plan E f = forward_walk plan E (f + 1)"
      by (simp add: forward_walk.simps [of plan E f])
    with "1.IH" [OF True] "1.prems" show ?thesis by simp
  next
    case False
    then have e: "forward_walk plan E f = f"
      by (auto simp: forward_walk.simps [of plan E f])
    with False "1.prems" show ?thesis by auto
  qed
qed

lemma backward_walk_find:
  "find (\<lambda>x. \<not> gap_plan_contains plan x) (rev [0 ..< Suc b]) =
     (if gap_plan_contains plan (backward_walk plan b) then None
      else Some (backward_walk plan b))"
proof (induction plan b rule: backward_walk.induct)
  case (1 plan b)
  show ?case
  proof (cases "gap_plan_contains plan b")
    case False
    then have "backward_walk plan b = b"
      by (simp add: backward_walk.simps [of plan b])
    with False show ?thesis by simp
  next
    case c: True
    show ?thesis
    proof (cases "b > 0")
      case False
      have "backward_walk plan b = b"
        by (subst backward_walk.simps) (use False in simp)
      with False c show ?thesis by simp
    next
      case True
      then obtain b' where b': "b = Suc b'" by (cases b) auto
      have e: "backward_walk plan b = backward_walk plan (b - 1)"
        using True c by (simp add: backward_walk.simps [of plan b])
      have "find (\<lambda>x. \<not> gap_plan_contains plan x) (rev [0 ..< Suc (b - 1)]) =
        (if gap_plan_contains plan (backward_walk plan (b - 1)) then None
         else Some (backward_walk plan (b - 1)))"
        using "1.IH" True c by simp
      then show ?thesis using e c b' by simp
    qed
  qed
qed

lemma backward_walk_le: "backward_walk plan b \<le> b"
proof (induction plan b rule: backward_walk.induct)
  case (1 plan b)
  show ?case
  proof (cases "b > 0 \<and> gap_plan_contains plan b")
    case True
    then have "backward_walk plan b = backward_walk plan (b - 1)"
      by (simp add: backward_walk.simps [of plan b])
    with "1.IH" [OF True] show ?thesis by simp
  next
    case False
    then have "backward_walk plan b = b"
      by (auto simp: backward_walk.simps [of plan b])
    then show ?thesis by simp
  qed
qed


lemma gap_sample_at_spec:
  assumes po: "plan_ordered (ranges plan)" and i: "i < T" and E: "0 < E"
    and nowrap: "(i + 1) * E < 2 ^ 64"
  shows "gap_sample_at plan E T i = spec_sample (ranges plan) E T i"
proof -
  let ?c = "((i + 1) * E) div (T + 1)"
  have "(i + 1) * E < (T + 1) * E" using i E by simp
  then have "(i + 1) * E < E * (T + 1)" by (simp add: mult.commute)
  then have cE: "?c < E" by (rule less_mult_imp_div_less)
  have m: "((i + 1) * E) mod 2 ^ 64 = (i + 1) * E" using nowrap by simp
  have eq: "(\<lambda>b. \<not> in_gap (ranges plan) b) = (\<lambda>b. \<not> gap_plan_contains plan b)"
    using po by (simp add: gap_plan_contains_in_gap)
  have fw: "find (\<lambda>b. \<not> gap_plan_contains plan b) [?c ..< E] =
     (if forward_walk plan E ?c < E then Some (forward_walk plan E ?c) else None)"
    using forward_walk_find [of ?c E plan] cE by simp
  have bw: "find (\<lambda>x. \<not> gap_plan_contains plan x) (rev [0 ..< Suc ?c]) =
     (if gap_plan_contains plan (backward_walk plan ?c) then None
      else Some (backward_walk plan ?c))"
    by (rule backward_walk_find)
  show ?thesis
    unfolding gap_sample_at_def spec_sample_def Let_def m eq fw bw
    using cE by (simp add: not_less)
qed

lemma gap_sample_at_safe:
  assumes "gap_sample_at plan E T i = Some s" and "0 < E"
  shows "s < E \<and> \<not> gap_plan_contains plan s"
proof -
  let ?raw = "(((i + 1) * E) mod 2 ^ 64) div (T + 1)"
  let ?c = "if ?raw \<ge> E then E - 1 else ?raw"
  have cE: "?c < E" using assms(2) by auto
  show ?thesis
  proof (cases "forward_walk plan E ?raw \<ge> E")
    case False
    then have "gap_sample_at plan E T i = Some (forward_walk plan E ?raw)"
      by (simp add: gap_sample_at_def Let_def)
    with assms(1) have "s = forward_walk plan E ?raw" by simp
    with False forward_walk_not_in [of plan E ?raw] show ?thesis by simp
  next
    case True
    then have "gap_sample_at plan E T i =
       (if gap_plan_contains plan (backward_walk plan ?c) then None
        else Some (backward_walk plan ?c))"
      by (simp add: gap_sample_at_def Let_def)
    with assms(1) have s: "s = backward_walk plan ?c" and n: "\<not> gap_plan_contains plan s"
      by (auto split: if_splits)
    have "backward_walk plan ?c \<le> ?c" by (rule backward_walk_le)
    with cE s n show ?thesis by simp
  qed
qed

lemma gap_collect_loop_foldl:
  "gap_collect_loop plan E T i acc =
     foldl (\<lambda>acc i. spec_keep acc (gap_sample_at plan E T i)) acc [i ..< T]"
proof (induction plan E T i acc rule: gap_collect_loop.induct)
  case (1 plan E T i acc)
  show ?case
  proof (cases "i < T")
    case False
    then show ?thesis by (simp add: gap_collect_loop.simps [of plan E T i acc])
  next
    case True
    then have u: "[i ..< T] = i # [Suc i ..< T]" by (simp add: upt_conv_Cons)
    show ?thesis
    proof (cases "gap_sample_at plan E T i")
      case None
      with True "1.IH"(1) show ?thesis
        by (simp add: gap_collect_loop.simps [of plan E T i acc] u spec_keep_def)
    next
      case (Some f)
      show ?thesis
      proof (cases "acc \<noteq> [] \<and> last acc = f")
        case d: True
        with True Some "1.IH"(2) [OF True Some d] show ?thesis
          by (simp add: gap_collect_loop.simps [of plan E T i acc] u spec_keep_def)
      next
        case d: False
        with True Some "1.IH"(3) [OF True Some d] show ?thesis
          by (auto simp: gap_collect_loop.simps [of plan E T i acc] u spec_keep_def)
      qed
    qed
  qed
qed

lemma foldl_keep_inv:
  assumes "\<And>i s. i \<in> set is \<Longrightarrow> g i = Some s \<Longrightarrow> P s"
    and "\<forall>s \<in> set acc. P s"
  shows "(\<forall>s \<in> set (foldl (\<lambda>acc i. spec_keep acc (g i)) acc is). P s) \<and>
         length (foldl (\<lambda>acc i. spec_keep acc (g i)) acc is) \<le> length acc + length is"
  using assms
proof (induction "is" arbitrary: acc)
  case Nil
  then show ?case by simp
next
  case (Cons i "is")
  have a: "\<forall>s \<in> set (spec_keep acc (g i)). P s"
    using Cons.prems by (auto simp: spec_keep_def split: option.splits)
  have l: "length (spec_keep acc (g i)) \<le> length acc + 1"
    by (auto simp: spec_keep_def split: option.splits)
  have "(\<forall>s \<in> set (foldl (\<lambda>acc i. spec_keep acc (g i)) (spec_keep acc (g i)) is). P s) \<and>
         length (foldl (\<lambda>acc i. spec_keep acc (g i)) (spec_keep acc (g i)) is)
           \<le> length (spec_keep acc (g i)) + length is"
  proof (rule Cons.IH)
    show "\<And>j s. j \<in> set is \<Longrightarrow> g j = Some s \<Longrightarrow> P s"
      using Cons.prems(1) by (meson list.set_intros(2))
    show "\<forall>s \<in> set (spec_keep acc (g i)). P s" by (rule a)
  qed
  with l show ?case by simp
qed

lemma gap_collect_samples_safe:
  "length (gap_collect_samples plan E D) \<le> D \<and>
   (\<forall>s \<in> set (gap_collect_samples plan E D). s < E \<and> \<not> gap_plan_contains plan s)"
proof (cases "E = 0 \<or> D = 0")
  case True
  then show ?thesis by (simp add: gap_collect_samples_def)
next
  case False
  let ?T = "if E < D then E else D"
  have e: "gap_collect_samples plan E D =
             foldl (\<lambda>acc i. spec_keep acc (gap_sample_at plan E ?T i)) [] [0 ..< ?T]"
    using False by (simp add: gap_collect_samples_def gap_collect_loop_foldl)
  have "(\<forall>s \<in> set (foldl (\<lambda>acc i. spec_keep acc (gap_sample_at plan E ?T i)) [] [0 ..< ?T]).
            s < E \<and> \<not> gap_plan_contains plan s) \<and>
        length (foldl (\<lambda>acc i. spec_keep acc (gap_sample_at plan E ?T i)) [] [0 ..< ?T])
          \<le> length ([] :: nat list) + length [0 ..< ?T]"
    by (rule foldl_keep_inv) (use False gap_sample_at_safe in auto)
  then show ?thesis unfolding e by auto
qed

lemma foldl_cong_set:
  "(\<And>a x. x \<in> set xs \<Longrightarrow> f a x = g a x) \<Longrightarrow> foldl f a xs = foldl g a xs"
  by (induction xs arbitrary: a) auto

lemma gap_collect_samples_spec:
  assumes "plan_ordered (ranges plan)" "32 * E < 2 ^ 64"
  shows "gap_collect_samples plan E GAP_SAMPLE_TARGET = spec_collect (ranges plan) E"
proof (cases "E = 0")
  case True
  then show ?thesis by (simp add: gap_collect_samples_def spec_collect_def)
next
  case False
  let ?T = "min 32 E"
  have T: "(if E < 32 then E else 32) = ?T" by simp
  have e: "gap_collect_samples plan E GAP_SAMPLE_TARGET =
             foldl (\<lambda>acc i. spec_keep acc (gap_sample_at plan E ?T i)) [] [0 ..< ?T]"
    using False unfolding gap_collect_samples_def GAP_SAMPLE_TARGET_def gap_collect_loop_foldl T
    by simp
  have "foldl (\<lambda>acc i. spec_keep acc (gap_sample_at plan E ?T i)) [] [0 ..< ?T] =
        foldl (\<lambda>acc i. spec_keep acc (spec_sample (ranges plan) E ?T i)) [] [0 ..< ?T]"
  proof (rule foldl_cong_set)
    fix a i assume "i \<in> set [0 ..< ?T]"
    then have i: "i < ?T" by simp
    then have "(i + 1) * E \<le> 32 * E" by simp
    with assms(2) have "(i + 1) * E < 2 ^ 64" by linarith
    with gap_sample_at_spec [OF assms(1) i _ this] False
    show "spec_keep a (gap_sample_at plan E ?T i) = spec_keep a (spec_sample (ranges plan) E ?T i)"
      by simp
  qed
  with e show ?thesis by (simp add: spec_collect_def Let_def)
qed


lemma gap_collect_samples_example:
  "gap_collect_samples \<lparr>ranges = [\<lparr>start_block = 4, block_count = 2\<rparr>], capacity = 8\<rparr> 6
     GAP_SAMPLE_TARGET = [0, 1, 2, 3]"
  by (simp add: gap_collect_samples_def GAP_SAMPLE_TARGET_def gap_collect_loop.simps
      gap_sample_at_def forward_walk.simps backward_walk.simps gap_plan_contains_def Let_def)

text \<open>
  Claim C9. For an ordered plan and an expected block count whose product with 32 fits
  \<^verbatim>\<open>uint64_t\<close>, \<^verbatim>\<open>gap_collect_samples\<close> with target \<^verbatim>\<open>GAP_SAMPLE_TARGET\<close> collects at
  most 32 samples, every sample lies in \<open>[0, expected_blocks)\<close> and in no range of the
  plan, and the list of samples is the one the specification describes: candidate
  \<open>\<lfloor>(i + 1) \<sqdot> expected_blocks / (T + 1)\<rfloor>\<close>, forward to the first block outside the
  plan, else backward from the candidate, else no sample, dropping a sample equal to
  the one collected just before.
\<close>

theorem C9_samples:
  "plan_ordered (ranges plan) \<Longrightarrow> 32 * expected_blocks < 2 ^ 64 \<Longrightarrow>
   length (gap_collect_samples plan expected_blocks GAP_SAMPLE_TARGET) \<le> 32 \<and>
   (\<forall>s \<in> set (gap_collect_samples plan expected_blocks GAP_SAMPLE_TARGET).
      s < expected_blocks \<and> \<not> in_gap (ranges plan) s) \<and>
   gap_collect_samples plan expected_blocks GAP_SAMPLE_TARGET =
     spec_collect (ranges plan) expected_blocks"
  using gap_collect_samples_safe [of plan expected_blocks GAP_SAMPLE_TARGET]
    gap_collect_samples_spec [of plan expected_blocks]
    gap_plan_contains_in_gap [of plan]
  by (simp add: GAP_SAMPLE_TARGET_def)

theorem C9_samples_witness:
  "plan_ordered [\<lparr>start_block = 4, block_count = 2\<rparr>] \<and> (32 :: nat) * 6 < 2 ^ 64 \<and>
   gap_collect_samples \<lparr>ranges = [\<lparr>start_block = 4, block_count = 2\<rparr>], capacity = 8\<rparr> 6
     GAP_SAMPLE_TARGET = [0, 1, 2, 3] \<and>
   spec_collect [\<lparr>start_block = 4, block_count = 2\<rparr>] 6 = [0, 1, 2, 3] \<and>
   \<not> in_gap [\<lparr>start_block = 4, block_count = 2\<rparr>] 0 \<and>
   \<not> in_gap [\<lparr>start_block = 4, block_count = 2\<rparr>] 1 \<and>
   \<not> in_gap [\<lparr>start_block = 4, block_count = 2\<rparr>] 2 \<and>
   \<not> in_gap [\<lparr>start_block = 4, block_count = 2\<rparr>] 3"
proof -
  have h: "plan_ordered (ranges \<lparr>ranges = [\<lparr>start_block = 4, block_count = 2\<rparr>], capacity = 8\<rparr>)"
    by (simp add: plan_ordered_single)
  have b: "(32 :: nat) * 6 < 2 ^ 64" by simp
  note t = C9_samples [OF h b, unfolded gap_collect_samples_example]
  from t have "spec_collect [\<lparr>start_block = 4, block_count = 2\<rparr>] 6 = [0, 1, 2, 3]"
    by simp
  moreover have "\<not> in_gap [\<lparr>start_block = 4, block_count = 2\<rparr>] 0 \<and>
     \<not> in_gap [\<lparr>start_block = 4, block_count = 2\<rparr>] 1 \<and>
     \<not> in_gap [\<lparr>start_block = 4, block_count = 2\<rparr>] 2 \<and>
     \<not> in_gap [\<lparr>start_block = 4, block_count = 2\<rparr>] 3"
    using t [THEN conjunct2, THEN conjunct1] by simp
  ultimately show ?thesis
    using h b gap_collect_samples_example by simp
qed

section \<open>Properties of the scan for gaps\<close>

lemma LB_pos: "0 < DVD_VIDEO_LB_LEN"
  by (simp add: DVD_VIDEO_LB_LEN_def)

lemma buffer_is_blank_loop_iff:
  "len \<le> length buffer \<Longrightarrow>
   buffer_is_blank_loop buffer len i = (\<forall>j. i \<le> j \<and> j < len \<longrightarrow> buffer ! j = 0)"
proof (induction buffer len i rule: buffer_is_blank_loop.induct)
  case (1 buffer len i)
  show ?case
  proof (cases "i < len")
    case False
    then show ?thesis by (auto simp: buffer_is_blank_loop.simps [of buffer len i])
  next
    case True
    show ?thesis
    proof (cases "buffer ! i \<noteq> 0")
      case nz: True
      with True show ?thesis
        by (auto simp: buffer_is_blank_loop.simps [of buffer len i])
    next
      case z: False
      then have "buffer_is_blank_loop buffer len i = buffer_is_blank_loop buffer len (Suc i)"
        using True by (simp add: buffer_is_blank_loop.simps [of buffer len i])
      also have "\<dots> = (\<forall>j. Suc i \<le> j \<and> j < len \<longrightarrow> buffer ! j = 0)"
        using "1.IH" [OF True] z "1.prems" by simp
      also have "\<dots> = (\<forall>j. i \<le> j \<and> j < len \<longrightarrow> buffer ! j = 0)"
        using z by (metis Suc_leI le_eq_less_or_eq Suc_leD)
      finally show ?thesis .
    qed
  qed
qed

lemma buffer_is_blank_iff:
  assumes "len \<le> length buffer"
  shows "buffer_is_blank buffer len = (take len buffer = replicate len 0)"
proof -
  have "buffer_is_blank buffer len = (\<forall>j < len. buffer ! j = 0)"
    using buffer_is_blank_loop_iff [OF assms, of 0] by (simp add: buffer_is_blank_def)
  also have "\<dots> = (take len buffer = replicate len 0)"
    using assms by (auto simp: list_eq_iff_nth_eq)
  finally show ?thesis .
qed

lemma chunk_block:
  assumes "i < c" "(p + c) * DVD_VIDEO_LB_LEN \<le> length f"
  shows "take DVD_VIDEO_LB_LEN
           (drop (i * DVD_VIDEO_LB_LEN)
              (take (c * DVD_VIDEO_LB_LEN) (drop (p * DVD_VIDEO_LB_LEN) f)))
         = file_block f (p + i)"
    and "DVD_VIDEO_LB_LEN \<le> length (drop (i * DVD_VIDEO_LB_LEN)
              (take (c * DVD_VIDEO_LB_LEN) (drop (p * DVD_VIDEO_LB_LEN) f)))"
proof -
  let ?L = DVD_VIDEO_LB_LEN
  have a: "i * ?L + ?L \<le> c * ?L"
  proof -
    have "Suc i \<le> c" using assms(1) by simp
    then have "Suc i * ?L \<le> c * ?L" by (rule mult_le_mono1)
    then show ?thesis by (simp add: add.commute)
  qed
  have b: "p * ?L + c * ?L \<le> length f" using assms(2) by (simp add: add_mult_distrib)
  have "drop (i * ?L) (take (c * ?L) (drop (p * ?L) f))
          = take (c * ?L - i * ?L) (drop (i * ?L) (drop (p * ?L) f))"
    by (rule drop_take)
  also have "drop (i * ?L) (drop (p * ?L) f) = drop ((p + i) * ?L) f"
    by (simp add: add_mult_distrib add.commute)
  finally have "take ?L (drop (i * ?L) (take (c * ?L) (drop (p * ?L) f)))
          = take ?L (take (c * ?L - i * ?L) (drop ((p + i) * ?L) f))"
    by simp
  also have "\<dots> = take ?L (drop ((p + i) * ?L) f)"
    using a by (simp only: take_take) (simp add: min_def)
  finally show "take ?L (drop (i * ?L) (take (c * ?L) (drop (p * ?L) f))) = file_block f (p + i)"
    by (simp only: file_block_def)
  show "?L \<le> length (drop (i * ?L) (take (c * ?L) (drop (p * ?L) f)))"
    using a b by simp
qed

lemma file_block_length:
  "(b + 1) * DVD_VIDEO_LB_LEN \<le> length f \<Longrightarrow> length (file_block f b) = DVD_VIDEO_LB_LEN"
  by (simp add: file_block_def)

lemma cnt_Suc: "cnt B (Suc k) = cnt B k + (if B k then 1 else 0)"
  by (simp add: cnt_def)

lemma cnt_run: "p \<le> k \<Longrightarrow> (\<forall>b. p \<le> b \<and> b < k \<longrightarrow> B b) \<Longrightarrow> cnt B k = cnt B p + (k - p)"
proof (induction k)
  case 0
  then show ?case by simp
next
  case (Suc k)
  show ?case
  proof (cases "p = Suc k")
    case True
    then show ?thesis by simp
  next
    case False
    with Suc.prems have pk: "p \<le> k" by simp
    moreover have "\<forall>b. p \<le> b \<and> b < k \<longrightarrow> B b" using Suc.prems by simp
    ultimately have "cnt B k = cnt B p + (k - p)" by (rule Suc.IH)
    moreover have "B k" using Suc.prems pk by simp
    ultimately show ?thesis using pk by (simp add: cnt_Suc)
  qed
qed

lemma closed_run_mono: "closed_run B q r \<Longrightarrow> q \<le> q' \<Longrightarrow> closed_run B q' r"
  by (auto simp: closed_run_def)

lemma in_gap_append: "in_gap (rs @ [r]) b \<longleftrightarrow> in_gap rs b \<or> (start_block r \<le> b \<and> b < start_block r + block_count r)"
  by (auto simp: in_gap_def)

lemma gap_plan_add_append:
  assumes "\<forall>r \<in> set (ranges pl). start_block r + block_count r < s" "0 < c"
  shows "gap_plan_add ro pl s c = (0, pl') \<Longrightarrow>
           ranges pl' = ranges pl @ [\<lparr>start_block = s, block_count = c\<rparr>]"
    and "fst (gap_plan_add ro pl s c) \<noteq> 0 \<Longrightarrow> \<exists>n. \<not> ro n"
proof -
  have nc: "\<not> (ranges pl \<noteq> [] \<and>
              s \<le> start_block (last (ranges pl)) + block_count (last (ranges pl)))"
  proof
    assume a: "ranges pl \<noteq> [] \<and>
              s \<le> start_block (last (ranges pl)) + block_count (last (ranges pl))"
    then have "last (ranges pl) \<in> set (ranges pl)" by simp
    with assms(1) have "start_block (last (ranges pl)) + block_count (last (ranges pl)) < s"
      by blast
    with a show False by simp
  qed
  show "gap_plan_add ro pl s c = (0, pl') \<Longrightarrow>
           ranges pl' = ranges pl @ [\<lparr>start_block = s, block_count = c\<rparr>]"
    using nc assms(2) unfolding gap_plan_add_def Let_def
    by (auto split: if_splits)
  show "fst (gap_plan_add ro pl s c) \<noteq> 0 \<Longrightarrow> \<exists>n. \<not> ro n"
    using nc assms(2) unfolding gap_plan_add_def Let_def
    by (auto split: if_splits)
qed

lemma scan_inv_blank_none:
  assumes "scan_inv B k st" "st_pending_start st = None" "B k"
  shows "scan_inv B (Suc k) (st\<lparr>st_pending_start := Some k\<rparr>)"
  using assms unfolding scan_inv_def frontier_def open_run_def
  by (auto simp: less_Suc_eq)

lemma scan_inv_blank_some:
  assumes "scan_inv B k st" "st_pending_start st = Some p" "B k"
  shows "scan_inv B (Suc k) st"
  using assms unfolding scan_inv_def frontier_def open_run_def
  by (auto simp: less_Suc_eq)

lemma scan_inv_nonblank_none:
  assumes "scan_inv B k st" "st_pending_start st = None" "\<not> B k"
  shows "scan_inv B (Suc k) st"
  using assms unfolding scan_inv_def frontier_def open_run_def
  by (auto simp: less_Suc_eq cnt_Suc intro: closed_run_mono)

lemma scan_inv_close:
  assumes inv: "scan_inv B k st" and p: "st_pending_start st = Some p" and nb: "\<not> B k"
    and rs: "ranges pl' = ranges (st_plan st) @ [\<lparr>start_block = p, block_count = k - p\<rparr>]"
  shows "scan_inv B (Suc k)
           \<lparr>st_plan = pl', st_blank_blocks = st_blank_blocks st + (k - p), st_pending_start = None\<rparr>"
proof -
  let ?rs = "ranges (st_plan st)"
  from inv p have po: "plan_ordered ?rs"
    and cl: "\<forall>r \<in> set ?rs. closed_run B p r"
    and cov: "\<forall>b < p. B b \<longrightarrow> in_gap ?rs b"
    and bl: "st_blank_blocks st = cnt B p"
    and op: "p < k" "\<forall>b. p \<le> b \<and> b < k \<longrightarrow> B b" "p = 0 \<or> \<not> B (p - 1)"
    unfolding scan_inv_def frontier_def open_run_def by simp_all
  have 1: "plan_ordered (ranges pl')"
    unfolding rs plan_ordered_snoc using po cl by (auto simp: closed_run_def)
  have new: "closed_run B (Suc k) \<lparr>start_block = p, block_count = k - p\<rparr>"
    using op nb by (auto simp: closed_run_def)
  have 2: "\<forall>r \<in> set (ranges pl'). closed_run B (Suc k) r"
    unfolding rs using cl new op(1) by (auto intro: closed_run_mono)
  have 3: "\<forall>b < Suc k. B b \<longrightarrow> in_gap (ranges pl') b"
  proof (intro allI impI)
    fix b assume b: "b < Suc k" "B b"
    with nb have "b < k" by (cases "b = k") auto
    show "in_gap (ranges pl') b"
    proof (cases "b < p")
      case True
      with cov b show ?thesis unfolding rs by (simp add: in_gap_append)
    next
      case False
      with \<open>b < k\<close> show ?thesis unfolding rs by (simp add: in_gap_append)
    qed
  qed
  have "cnt B k = cnt B p + (k - p)" using cnt_run [of p k B] op by simp
  then have 4: "st_blank_blocks st + (k - p) = cnt B (Suc k)"
    using bl nb by (simp add: cnt_Suc)
  show ?thesis
    unfolding scan_inv_def frontier_def open_run_def using 1 2 3 4 nb by simp
qed

lemma scan_chunk_inv:
  assumes buf: "buffer = take (c * DVD_VIDEO_LB_LEN) (drop (p * DVD_VIDEO_LB_LEN) f)"
    and len: "(p + c) * DVD_VIDEO_LB_LEN \<le> length f"
  shows "i \<le> c \<Longrightarrow> scan_inv (blank_block f) (p + i) st \<Longrightarrow>
     (case scan_chunk os buffer p c i st of
        Inl e \<Rightarrow> \<exists>n. \<not> realloc_succeeds os n
      | Inr st' \<Rightarrow> scan_inv (blank_block f) (p + c) st')"
proof (induction "c - i" arbitrary: i st)
  case 0
  then have ic: "i = c" and nl: "\<not> i < c" by simp_all
  from nl have "scan_chunk os buffer p c i st = Inr st"
    by (simp add: scan_chunk.simps [of os buffer p c i st])
  with 0 ic show ?case by simp
next
  case (Suc n)
  let ?B = "blank_block f"
  from Suc.hyps(2) have ic: "i < c" by simp
  have n: "n = c - Suc i" using Suc.hyps(2) by simp
  have sic: "Suc i \<le> c" using ic by simp
  have blank: "buffer_is_blank (drop (i * DVD_VIDEO_LB_LEN) buffer) DVD_VIDEO_LB_LEN = ?B (p + i)"
    unfolding buf blank_block_def
    using buffer_is_blank_iff [OF chunk_block(2) [OF ic len]] chunk_block(1) [OF ic len]
    by simp
  note IH = Suc.hyps(1) [OF n sic]
  show ?case
  proof (cases "?B (p + i)")
    case True
    show ?thesis
    proof (cases "st_pending_start st")
      case None
      have e: "scan_chunk os buffer p c i st =
               scan_chunk os buffer p c (Suc i) (st\<lparr>st_pending_start := Some (p + i)\<rparr>)"
        using ic True None blank by (simp add: scan_chunk.simps [of os buffer p c i st])
      have "scan_inv ?B (p + Suc i) (st\<lparr>st_pending_start := Some (p + i)\<rparr>)"
        using scan_inv_blank_none [OF Suc.prems(2) None True] by simp
      from IH [OF this] show ?thesis unfolding e .
    next
      case (Some q)
      have e: "scan_chunk os buffer p c i st = scan_chunk os buffer p c (Suc i) st"
        using ic True Some blank by (simp add: scan_chunk.simps [of os buffer p c i st])
      have "scan_inv ?B (p + Suc i) st"
        using scan_inv_blank_some [OF Suc.prems(2) Some True] by simp
      from IH [OF this] show ?thesis unfolding e .
    qed
  next
    case False
    show ?thesis
    proof (cases "st_pending_start st")
      case None
      have e: "scan_chunk os buffer p c i st = scan_chunk os buffer p c (Suc i) st"
        using ic False None blank by (simp add: scan_chunk.simps [of os buffer p c i st])
      have "scan_inv ?B (p + Suc i) st"
        using scan_inv_nonblank_none [OF Suc.prems(2) None False] by simp
      from IH [OF this] show ?thesis unfolding e .
    next
      case (Some q)
      obtain rc pl' where g: "gap_plan_add (realloc_succeeds os) (st_plan st) q (p + i - q) = (rc, pl')"
        by (cases "gap_plan_add (realloc_succeeds os) (st_plan st) q (p + i - q)")
      from Suc.prems(2) Some have cl: "\<forall>r \<in> set (ranges (st_plan st)).
            start_block r + block_count r < q" and qk: "q < p + i"
        unfolding scan_inv_def frontier_def open_run_def closed_run_def by auto
      from qk have pos: "0 < p + i - q" by simp
      show ?thesis
      proof (cases "rc = 0")
        case rc: False
        then have e: "scan_chunk os buffer p c i st = Inl OutOfMemory"
          using ic False Some blank g
          by (simp add: scan_chunk.simps [of os buffer p c i st] Let_def)
        have "\<exists>n. \<not> realloc_succeeds os n"
          using gap_plan_add_append(2) [OF cl pos, of "realloc_succeeds os"] g rc by simp
        then show ?thesis unfolding e by simp
      next
        case rc: True
        let ?st = "\<lparr>st_plan = pl', st_blank_blocks = st_blank_blocks st + (p + i - q),
                    st_pending_start = None\<rparr>"
        have e: "scan_chunk os buffer p c i st = scan_chunk os buffer p c (Suc i) ?st"
          using ic False Some blank g rc
          by (simp add: scan_chunk.simps [of os buffer p c i st] Let_def)
        have rs: "ranges pl' = ranges (st_plan st) @ [\<lparr>start_block = q, block_count = p + i - q\<rparr>]"
          using gap_plan_add_append(1) [OF cl pos, of "realloc_succeeds os" pl'] g rc by simp
        have "scan_inv ?B (p + Suc i) ?st"
          using scan_inv_close [OF Suc.prems(2) Some False rs] by simp
        from IH [OF this] show ?thesis unfolding e .
      qed
    qed
  qed
qed

lemma scan_loop_inv:
  assumes len: "n * DVD_VIDEO_LB_LEN \<le> length f"
  shows "p \<le> n \<Longrightarrow> scan_inv (blank_block f) p st \<Longrightarrow>
     (case scan_loop os f n p st of
        Inl e \<Rightarrow> os_failure os
      | Inr st' \<Rightarrow> scan_inv (blank_block f) n st')"
proof (induction "n - p" arbitrary: p st rule: less_induct)
  case less
  let ?L = DVD_VIDEO_LB_LEN
  show ?case
  proof (cases "p < n")
    case False
    with less.prems have pn: "p = n" by simp
    from False have "scan_loop os f n p st = Inr st"
      by (simp add: scan_loop.simps [of os f n p st])
    with less.prems pn show ?thesis by simp
  next
    case True
    define c where "c = (if n - p > BUFFER_SIZE then BUFFER_SIZE else n - p)"
    have c: "0 < c" "p + c \<le> n" using True by (auto simp: c_def BUFFER_SIZE_def)
    have pc: "(p + c) * ?L \<le> length f"
    proof -
      have "(p + c) * ?L \<le> n * ?L" using c(2) by (rule mult_le_mono1)
      then show ?thesis using len by (rule order_trans)
    qed
    then have pc': "p * ?L + c * ?L \<le> length f" by (simp add: add_mult_distrib)
    show ?thesis
    proof (cases "pread_fails os (p * ?L)")
      case pf: True
      then have "scan_loop os f n p st = Inl PreadFailed"
        using True by (simp add: scan_loop.simps [of os f n p st] pread_def Let_def)
      moreover have "os_failure os" using pf by (auto simp: os_failure_def)
      ultimately show ?thesis by simp
    next
      case pf: False
      let ?buf = "take (c * ?L) (drop (p * ?L) f)"
      have lb: "length ?buf = c * ?L" using pc' by simp
      have pr: "pread os f (c * ?L) (p * ?L) = (int (c * ?L), ?buf)"
        using pf lb by (simp add: pread_def)
      have "nat (int (c * ?L)) = c * ?L" by (rule nat_int)
      then have hb: "nat (int (c * ?L)) div ?L = c" using LB_pos by simp
      have e: "scan_loop os f n p st =
                 (case scan_chunk os ?buf p c 0 st of
                    Inl e \<Rightarrow> Inl e
                  | Inr st' \<Rightarrow> scan_loop os f n (p + c) st')"
        using True c(1) hb pr unfolding c_def [symmetric]
        by (simp add: scan_loop.simps [of os f n p st] c_def [symmetric] Let_def
            del: of_nat_mult)
      have ch: "case scan_chunk os ?buf p c 0 st of
                  Inl e \<Rightarrow> \<exists>n. \<not> realloc_succeeds os n
                | Inr st' \<Rightarrow> scan_inv (blank_block f) (p + c) st'"
        using scan_chunk_inv [OF refl pc, of 0 st os] less.prems(2) by simp
      show ?thesis
      proof (cases "scan_chunk os ?buf p c 0 st")
        case (Inl er)
        with ch have "os_failure os" by (auto simp: os_failure_def)
        with Inl e show ?thesis by simp
      next
        case (Inr st')
        with ch have inv: "scan_inv (blank_block f) (p + c) st'" by simp
        have "n - (p + c) < n - p" using c True by simp
        from less.hyps [OF this c(2) inv] Inr e show ?thesis by simp
      qed
    qed
  qed
qed

lemma closed_run_maximal: "closed_run B q r \<Longrightarrow> q \<le> n \<Longrightarrow> maximal_run B n (start_block r) (block_count r)"
  by (auto simp: closed_run_def maximal_run_def)

lemma scan_inv_init: "scan_inv B 0 \<lparr>st_plan = empty_plan, st_blank_blocks = 0, st_pending_start = None\<rparr>"
  by (simp add: scan_inv_def frontier_def open_run_def empty_plan_def plan_ordered_Nil cnt_def)

lemma scan_post_none:
  assumes "scan_inv B n st" "st_pending_start st = None"
  shows "scan_post B n (ranges (st_plan st)) \<and> st_blank_blocks st = cnt B n"
  using assms unfolding scan_inv_def scan_post_def frontier_def
  by (auto intro: closed_run_maximal)

lemma scan_post_flush:
  assumes inv: "scan_inv B n st" and p: "st_pending_start st = Some p"
    and rs: "ranges pl' = ranges (st_plan st) @ [\<lparr>start_block = p, block_count = n - p\<rparr>]"
  shows "scan_post B n (ranges pl') \<and> st_blank_blocks st + (n - p) = cnt B n"
proof -
  let ?rs = "ranges (st_plan st)"
  from inv p have po: "plan_ordered ?rs"
    and cl: "\<forall>r \<in> set ?rs. closed_run B p r"
    and cov: "\<forall>b < p. B b \<longrightarrow> in_gap ?rs b"
    and bl: "st_blank_blocks st = cnt B p"
    and op: "p < n" "\<forall>b. p \<le> b \<and> b < n \<longrightarrow> B b" "p = 0 \<or> \<not> B (p - 1)"
    unfolding scan_inv_def frontier_def open_run_def by simp_all
  have 1: "plan_ordered (ranges pl')"
    unfolding rs plan_ordered_snoc using po cl by (auto simp: closed_run_def)
  have new: "maximal_run B n p (n - p)"
    using op by (auto simp: maximal_run_def)
  have 2: "\<forall>r \<in> set (ranges pl'). maximal_run B n (start_block r) (block_count r)"
    unfolding rs using cl new op(1) by (auto intro: closed_run_maximal)
  have 3: "\<forall>b < n. B b \<longrightarrow> in_gap (ranges pl') b"
  proof (intro allI impI)
    fix b assume b: "b < n" "B b"
    show "in_gap (ranges pl') b"
    proof (cases "b < p")
      case True
      with cov b show ?thesis unfolding rs by (simp add: in_gap_append)
    next
      case False
      with b show ?thesis unfolding rs by (simp add: in_gap_append)
    qed
  qed
  have "cnt B n = cnt B p + (n - p)" using cnt_run [of p n B] op by simp
  with bl 1 2 3 show ?thesis by (simp add: scan_post_def)
qed

lemma maximal_run_unique:
  assumes a: "maximal_run B n s c" and b: "maximal_run B n s' c'"
    and x: "s \<le> x" "x < s + c" "s' \<le> x" "x < s' + c'"
  shows "s = s' \<and> c = c'"
proof -
  have all: "\<And>y. s \<le> y \<Longrightarrow> y < s + c \<Longrightarrow> B y" "\<And>y. s' \<le> y \<Longrightarrow> y < s' + c' \<Longrightarrow> B y"
    using a b by (auto simp: maximal_run_def)
  have s: "s = s'"
  proof (rule ccontr)
    assume ne: "s \<noteq> s'"
    show False
    proof (cases "s < s'")
      case True
      then have "B (s' - 1)" using all(1) [of "s' - 1"] x by simp
      moreover have "s' \<noteq> 0" using True by simp
      ultimately show False using b by (simp add: maximal_run_def)
    next
      case False
      with ne have lt: "s' < s" by simp
      then have "B (s - 1)" using all(2) [of "s - 1"] x by simp
      moreover have "s \<noteq> 0" using lt by simp
      ultimately show False using a by (simp add: maximal_run_def)
    qed
  qed
  have c: "c = c'"
  proof (rule ccontr)
    assume ne: "c \<noteq> c'"
    show False
    proof (cases "c < c'")
      case True
      then have "B (s + c)" using all(2) [of "s + c"] s by simp
      moreover have "s + c \<noteq> n" using True b s by (simp add: maximal_run_def)
      ultimately show False using a by (simp add: maximal_run_def)
    next
      case False
      with ne have lt: "c' < c" by simp
      then have "B (s' + c')" using all(1) [of "s' + c'"] s by simp
      moreover have "s' + c' \<noteq> n" using lt a s by (simp add: maximal_run_def)
      ultimately show False using b by (simp add: maximal_run_def)
    qed
  qed
  from s c show ?thesis by simp
qed

lemma scan_post_runs:
  assumes "scan_post B n rs"
  shows "\<lparr>start_block = s, block_count = c\<rparr> \<in> set rs \<longleftrightarrow> maximal_run B n s c"
proof
  assume "\<lparr>start_block = s, block_count = c\<rparr> \<in> set rs"
  with assms have "maximal_run B n (start_block \<lparr>start_block = s, block_count = c\<rparr>)
                     (block_count \<lparr>start_block = s, block_count = c\<rparr>)"
    unfolding scan_post_def by blast
  then show "maximal_run B n s c" by simp
next
  assume m: "maximal_run B n s c"
  then have "B s" "s < n" by (auto simp: maximal_run_def)
  with assms have "in_gap rs s" unfolding scan_post_def by blast
  then obtain r where r: "r \<in> set rs" "start_block r \<le> s" "s < start_block r + block_count r"
    by (auto simp: in_gap_def)
  with assms have mr: "maximal_run B n (start_block r) (block_count r)"
    unfolding scan_post_def by blast
  have "s \<le> s" "s < s + c" using m by (auto simp: maximal_run_def)
  from maximal_run_unique [OF m mr this r(2,3)]
  have "r = \<lparr>start_block = s, block_count = c\<rparr>" by simp
  with r(1) show "\<lparr>start_block = s, block_count = c\<rparr> \<in> set rs" by simp
qed

lemma scan_existing_correct:
  "case scan_existing_file_for_gaps os f E empty_plan of
     Inl e \<Rightarrow> os_failure os
   | Inr r \<Rightarrow> scan_post (blank_block f) (scanned_blocks f E) (ranges (sr_plan r)) \<and>
             sr_blank_blocks r = blank_count f E \<and>
             sr_full_blocks r = length f div DVD_VIDEO_LB_LEN \<and>
             sr_existing_bytes r = length f"
proof (cases "fstat_fails os")
  case True
  then show ?thesis by (simp add: scan_existing_file_for_gaps_def os_failure_def)
next
  case ff: False
  let ?L = DVD_VIDEO_LB_LEN
  let ?n = "scanned_blocks f E"
  let ?B = "blank_block f"
  have n: "(if length f div ?L > E then E else length f div ?L) = ?n"
    by (simp add: scanned_blocks_def min_def)
  have "?n \<le> length f div ?L" by (simp add: scanned_blocks_def)
  then have "?n * ?L \<le> (length f div ?L) * ?L" by (rule mult_le_mono1)
  also have "\<dots> \<le> length f" by simp
  finally have len: "?n * ?L \<le> length f" .
  have bc: "blank_count f E = cnt ?B ?n" by (simp add: blank_count_def cnt_def)
  show ?thesis
  proof (cases "?n > 0 \<and> malloc_fails os")
    case True
    then show ?thesis using ff n
      by (simp add: scan_existing_file_for_gaps_def os_failure_def Let_def)
  next
    case mf: False
    let ?st0 = "\<lparr>st_plan = empty_plan, st_blank_blocks = 0, st_pending_start = None\<rparr>"
    have lp: "case scan_loop os f ?n 0 ?st0 of
                Inl e \<Rightarrow> os_failure os
              | Inr st' \<Rightarrow> scan_inv ?B ?n st'"
      using scan_loop_inv [OF len, of 0 ?st0 os] scan_inv_init by simp
    show ?thesis
    proof (cases "scan_loop os f ?n 0 ?st0")
      case (Inl e)
      with lp have "os_failure os" by simp
      with Inl ff mf n show ?thesis
        by (simp add: scan_existing_file_for_gaps_def Let_def)
    next
      case (Inr st)
      with lp have inv: "scan_inv ?B ?n st" by simp
      show ?thesis
      proof (cases "st_pending_start st")
        case None
        have "scan_existing_file_for_gaps os f E empty_plan =
                Inr \<lparr>sr_plan = st_plan st, sr_blank_blocks = st_blank_blocks st,
                     sr_full_blocks = length f div ?L, sr_existing_bytes = length f\<rparr>"
          using ff mf n Inr None by (simp add: scan_existing_file_for_gaps_def Let_def)
        with scan_post_none [OF inv None] bc show ?thesis by simp
      next
        case (Some p)
        obtain rc pl' where g: "gap_plan_add (realloc_succeeds os) (st_plan st) p (?n - p) = (rc, pl')"
          by (cases "gap_plan_add (realloc_succeeds os) (st_plan st) p (?n - p)")
        from inv Some have cl: "\<forall>r \<in> set (ranges (st_plan st)).
            start_block r + block_count r < p" and pn: "p < ?n"
          unfolding scan_inv_def frontier_def open_run_def closed_run_def by auto
        from pn have pos: "0 < ?n - p" by simp
        show ?thesis
        proof (cases "rc = 0")
          case rc: False
          then have "scan_existing_file_for_gaps os f E empty_plan = Inl OutOfMemory"
            using ff mf n Inr Some g by (simp add: scan_existing_file_for_gaps_def Let_def)
          moreover have "\<exists>k. \<not> realloc_succeeds os k"
            using gap_plan_add_append(2) [OF cl pos, of "realloc_succeeds os"] g rc by simp
          ultimately show ?thesis by (auto simp: os_failure_def)
        next
          case rc: True
          have e: "scan_existing_file_for_gaps os f E empty_plan =
                Inr \<lparr>sr_plan = pl', sr_blank_blocks = st_blank_blocks st + (?n - p),
                     sr_full_blocks = length f div ?L, sr_existing_bytes = length f\<rparr>"
            using ff mf n Inr Some g rc by (simp add: scan_existing_file_for_gaps_def Let_def)
          have rs: "ranges pl' = ranges (st_plan st) @ [\<lparr>start_block = p, block_count = ?n - p\<rparr>]"
            using gap_plan_add_append(1) [OF cl pos, of "realloc_succeeds os" pl'] g rc by simp
          from scan_post_flush [OF inv Some rs] bc e show ?thesis by simp
        qed
      qed
    qed
  qed
qed

lemma quiet_os_no_failure: "\<not> os_failure quiet_os"
  by (simp add: os_failure_def quiet_os_def)

lemma block_lengths [simp]:
  "length zero_block = DVD_VIDEO_LB_LEN" "length ones_block = DVD_VIDEO_LB_LEN"
  by (simp_all add: zero_block_def ones_block_def)

lemma ones_not_zero: "ones_block \<noteq> zero_block"
proof
  assume "ones_block = zero_block"
  then have "ones_block ! 0 = zero_block ! 0" by simp
  then show False using LB_pos by (simp add: ones_block_def zero_block_def)
qed

lemma file_block_0: "length b = DVD_VIDEO_LB_LEN \<Longrightarrow> file_block (b @ rest) 0 = b"
  by (simp add: file_block_def)

lemma file_block_Suc:
  "length b = DVD_VIDEO_LB_LEN \<Longrightarrow> file_block (b @ rest) (Suc k) = file_block rest k"
  by (simp add: file_block_def)

lemma example_file_blocks:
  "length (zero_block @ ones_block @ [7]) div DVD_VIDEO_LB_LEN = 2"
  "blank_block (zero_block @ ones_block @ [7]) 0"
  "\<not> blank_block (zero_block @ ones_block @ [7]) 1"
proof -
  show "length (zero_block @ ones_block @ [7]) div DVD_VIDEO_LB_LEN = 2"
    by (simp add: DVD_VIDEO_LB_LEN_def)
  show "blank_block (zero_block @ ones_block @ [7]) 0"
    by (simp add: blank_block_def file_block_0) (simp add: zero_block_def)
  have "file_block (zero_block @ ones_block @ [7]) (Suc 0) = ones_block"
    by (simp add: file_block_Suc file_block_0)
  then show "\<not> blank_block (zero_block @ ones_block @ [7]) 1"
    using ones_not_zero by (simp add: blank_block_def zero_block_def)
qed

lemma scan_total:
  "\<not> os_failure os \<Longrightarrow> \<exists>r. scan_existing_file_for_gaps os f E empty_plan = Inr r"
  using scan_existing_correct [of os f E]
  by (cases "scan_existing_file_for_gaps os f E empty_plan") auto

text \<open>
  Claim C3. Unless a system call fails, \<^verbatim>\<open>scan_existing_file_for_gaps\<close> returns a
  result. With \<open>n = min (\<lfloor>length / 2048\<rfloor>) expected_blocks\<close>, the ranges it has added
  to an empty plan are exactly the maximal runs of blank blocks among the first \<open>n\<close>
  blocks of the file, each as start and length and in ascending order; a block is blank
  when it consists of 2048 zero bytes; the blank count it returns is the number of blank
  blocks among the first \<open>n\<close>; bytes after the last full block play no part.
\<close>

theorem C3_scan_existing_file:
  "(\<not> os_failure os \<longrightarrow> (\<exists>r. scan_existing_file_for_gaps os f expected_blocks empty_plan = Inr r)) \<and>
   (scan_existing_file_for_gaps os f expected_blocks empty_plan = Inr r \<longrightarrow>
      plan_ordered (ranges (sr_plan r)) \<and>
      (\<forall>s c. \<lparr>start_block = s, block_count = c\<rparr> \<in> set (ranges (sr_plan r)) \<longleftrightarrow>
         maximal_run (blank_block f) (min (length f div DVD_VIDEO_LB_LEN) expected_blocks) s c) \<and>
      sr_blank_blocks r =
        length (filter (blank_block f) [0 ..< min (length f div DVD_VIDEO_LB_LEN) expected_blocks]) \<and>
      sr_full_blocks r = length f div DVD_VIDEO_LB_LEN \<and>
      sr_existing_bytes r = length f)"
proof (intro conjI impI)
  assume "\<not> os_failure os"
  then show "\<exists>r. scan_existing_file_for_gaps os f expected_blocks empty_plan = Inr r"
    by (rule scan_total)
next
  assume a: "scan_existing_file_for_gaps os f expected_blocks empty_plan = Inr r"
  with scan_existing_correct [of os f expected_blocks]
  have p: "scan_post (blank_block f) (scanned_blocks f expected_blocks) (ranges (sr_plan r))"
    and rest: "sr_blank_blocks r = blank_count f expected_blocks"
      "sr_full_blocks r = length f div DVD_VIDEO_LB_LEN" "sr_existing_bytes r = length f"
    by simp_all
  show "plan_ordered (ranges (sr_plan r))" using p by (simp add: scan_post_def)
  show "\<forall>s c. \<lparr>start_block = s, block_count = c\<rparr> \<in> set (ranges (sr_plan r)) \<longleftrightarrow>
         maximal_run (blank_block f) (min (length f div DVD_VIDEO_LB_LEN) expected_blocks) s c"
    using scan_post_runs [OF p] by (simp add: scanned_blocks_def)
  show "sr_blank_blocks r =
        length (filter (blank_block f) [0 ..< min (length f div DVD_VIDEO_LB_LEN) expected_blocks])"
    using rest(1) by (simp add: blank_count_def scanned_blocks_def)
  show "sr_full_blocks r = length f div DVD_VIDEO_LB_LEN" by (rule rest(2))
  show "sr_existing_bytes r = length f" by (rule rest(3))
qed

theorem C3_scan_existing_file_witness:
  "\<exists>r. scan_existing_file_for_gaps quiet_os (zero_block @ ones_block @ [7]) 5 empty_plan = Inr r \<and>
       \<lparr>start_block = 0, block_count = 1\<rparr> \<in> set (ranges (sr_plan r)) \<and>
       sr_blank_blocks r = 1 \<and> sr_full_blocks r = 2"
proof -
  let ?f = "zero_block @ ones_block @ [7 :: byte]"
  note t = C3_scan_existing_file [of quiet_os ?f 5]
  from t quiet_os_no_failure obtain r
    where r: "scan_existing_file_for_gaps quiet_os ?f 5 empty_plan = Inr r" by blast
  note u = C3_scan_existing_file [of quiet_os ?f 5 r, THEN conjunct2, rule_format, OF r]
  have m: "maximal_run (blank_block ?f) (min (length ?f div DVD_VIDEO_LB_LEN) 5) 0 1"
    using example_file_blocks by (simp add: maximal_run_def)
  have "[0 ..< min (length ?f div DVD_VIDEO_LB_LEN) 5] = [0, 1]"
    using example_file_blocks(1) by (simp add: upt_rec)
  then have c: "length (filter (blank_block ?f) [0 ..< min (length ?f div DVD_VIDEO_LB_LEN) 5]) = 1"
    using example_file_blocks(2,3) by simp
  from u m c example_file_blocks(1) have
    "\<lparr>start_block = 0, block_count = 1\<rparr> \<in> set (ranges (sr_plan r)) \<and>
       sr_blank_blocks r = 1 \<and> sr_full_blocks r = 2"
    by simp
  with r show ?thesis by blast
qed

section \<open>Properties of the block copier\<close>

lemma put_bytes_end: "put_bytes f (length f) data = f @ data"
  by (simp add: put_bytes_def)

lemma write_seq_complete:
  "writes_complete os \<Longrightarrow>
   write_seq os fd data =
     (int (length data),
      \<lparr>content = content fd @ data, writes = writes fd @ [(length (content fd), length data)]\<rparr>)"
  by (simp add: write_seq_def pwrite_def writes_complete_def Let_def put_bytes_end)

lemma buffer_bytes_length [simp]: "length (buffer_bytes d off n len) = len"
  by (simp add: buffer_bytes_def)

lemma take_buffer_zero:
  "n \<le> BUFFER_SIZE * DVD_VIDEO_LB_LEN \<Longrightarrow> take n buffer_zero = replicate n 0"
  by (simp add: buffer_zero_def min_def)

text \<open>One pass with a short (or failed) read under SKIP_MULTIBLOCK.\<close>

lemma copy_iteration_short_multiblock:
  assumes wc: "writes_complete os"
    and tr: "to_read = (if cs_to_read st > cs_remaining st then cs_remaining st else cs_to_read st)"
    and bound: "0 < to_read" "to_read \<le> int BUFFER_SIZE"
    and got: "got = read_ret dvd_file (cs_offset st) to_read" "got < to_read"
    and g: "g = (if got < 0 then 0 else got)"
  shows "\<exists>st'. copy_iteration dvd_file os STRATEGY_SKIP_MULTIBLOCK st = Inr st' \<and>
           cs_offset st' = cs_offset st + to_read \<and>
           cs_remaining st' = cs_remaining st - to_read \<and>
           cs_to_read st' = to_read \<and>
           content (cs_destination st') =
             content (cs_destination st) @
             buffer_bytes dvd_file (cs_offset st) to_read (nat g * DVD_VIDEO_LB_LEN) @
             replicate (nat (to_read - g) * DVD_VIDEO_LB_LEN) 0"
proof -
  let ?L = "DVD_VIDEO_LB_LEN"
  have g0: "0 \<le> g" "g < to_read" using g got(2) bound(1) by auto
  have nb: "nat ((to_read - g) * int ?L) = nat (to_read - g) * ?L"
    using g0 by (simp add: nat_mult_distrib)
  have "nat (to_read - g) \<le> BUFFER_SIZE" using bound(2) g0 by simp
  then have "nat (to_read - g) * ?L \<le> BUFFER_SIZE * ?L" by (rule mult_le_mono1)
  then have pad: "take (nat ((to_read - g) * int ?L)) buffer_zero
                    = replicate (nat (to_read - g) * ?L) 0"
    unfolding nb by (rule take_buffer_zero)
  have il: "int (nat (to_read - g) * ?L) = (to_read - g) * int ?L"
    using g0 by simp
  show ?thesis
  proof (cases "got > 0")
    case True
    then have gg: "g = got" using g by simp
    have nl: "nat (got * int ?L) = nat got * ?L" using True by (simp add: nat_mult_distrib)
    have il2: "int (nat got * ?L) = got * int ?L" using True by simp
    show ?thesis
      using True got gg pad il il2 nl
      unfolding copy_iteration_def tr [symmetric] Let_def got(1) [symmetric]
      by (simp add: write_seq_complete [OF wc])
  next
    case False
    then have gz: "g = 0" using g by auto
    have bb: "buffer_bytes dvd_file (cs_offset st) to_read 0 = []"
      by (simp add: buffer_bytes_def)
    show ?thesis
      using False got gz pad il bb g
      unfolding copy_iteration_def tr [symmetric] Let_def got(1) [symmetric]
      by (simp add: write_seq_complete [OF wc])
  qed
qed

text \<open>One pass with a full read.\<close>

lemma copy_iteration_full:
  assumes wc: "writes_complete os"
    and tr: "to_read = (if cs_to_read st > cs_remaining st then cs_remaining st else cs_to_read st)"
    and pos: "0 < to_read"
    and got: "read_ret dvd_file (cs_offset st) to_read = to_read"
  shows "\<exists>st'. copy_iteration dvd_file os errorstrat st = Inr st' \<and>
           cs_offset st' = cs_offset st + to_read \<and>
           cs_remaining st' = cs_remaining st - to_read \<and>
           cs_to_read st' = to_read \<and>
           content (cs_destination st') =
             content (cs_destination st) @
             buffer_bytes dvd_file (cs_offset st) to_read (nat to_read * DVD_VIDEO_LB_LEN)"
proof -
  let ?L = "DVD_VIDEO_LB_LEN"
  have nl: "nat (to_read * int ?L) = nat to_read * ?L" using pos by (simp add: nat_mult_distrib)
  have il2: "int (nat to_read * ?L) = to_read * int ?L" using pos by simp
  show ?thesis
    using pos got nl il2
    unfolding copy_iteration_def tr [symmetric] Let_def
    by (simp add: write_seq_complete [OF wc])
qed

lemma copy_iteration_multiblock_progress:
  assumes rb: "reads_bounded dvd_file" and wc: "writes_complete os"
    and inv: "0 < cs_remaining st" "1 \<le> cs_to_read st" "cs_to_read st \<le> int BUFFER_SIZE"
    and tr: "to_read = (if cs_to_read st > cs_remaining st then cs_remaining st else cs_to_read st)"
  shows "\<exists>st'. copy_iteration dvd_file os STRATEGY_SKIP_MULTIBLOCK st = Inr st' \<and>
           cs_offset st' = cs_offset st + to_read \<and>
           cs_remaining st' = cs_remaining st - to_read \<and>
           cs_to_read st' = to_read \<and>
           length (content (cs_destination st')) =
             length (content (cs_destination st)) + nat to_read * DVD_VIDEO_LB_LEN"
proof -
  have pos: "0 < to_read" and le: "to_read \<le> int BUFFER_SIZE" using inv tr by auto
  define got where "got = read_ret dvd_file (cs_offset st) to_read"
  have "got \<le> to_read" using rb by (simp add: got_def reads_bounded_def)
  then consider (full) "got = to_read" | (short) "got < to_read" by linarith
  then show ?thesis
  proof cases
    case full
    from copy_iteration_full [OF wc tr pos, of dvd_file STRATEGY_SKIP_MULTIBLOCK] full
    show ?thesis unfolding got_def by auto
  next
    case short
    define g where "g = (if got < 0 then 0 else got)"
    have g0: "0 \<le> g" "g < to_read" using short pos by (auto simp: g_def)
    then have "nat g * DVD_VIDEO_LB_LEN + nat (to_read - g) * DVD_VIDEO_LB_LEN
                 = nat to_read * DVD_VIDEO_LB_LEN"
      by (simp add: add_mult_distrib [symmetric] nat_add_distrib [symmetric])
    with copy_iteration_short_multiblock [OF wc tr pos le got_def short g_def, of ]
    show ?thesis by auto
  qed
qed

lemma copy_loop_multiblock:
  assumes rb: "reads_bounded dvd_file" and wc: "writes_complete os"
  shows "1 \<le> cs_to_read st \<Longrightarrow> cs_to_read st \<le> int BUFFER_SIZE \<Longrightarrow>
     \<exists>fd'. copy_loop dvd_file os STRATEGY_SKIP_MULTIBLOCK st = Some (0, fd') \<and>
       length (content fd') =
         length (content (cs_destination st)) + nat (cs_remaining st) * DVD_VIDEO_LB_LEN"
proof (induction "nat (cs_remaining st)" arbitrary: st rule: less_induct)
  case less
  show ?case
  proof (cases "cs_remaining st > 0")
    case False
    then show ?thesis by (subst copy_loop.simps) simp
  next
    case True
    define to_read where
      "to_read = (if cs_to_read st > cs_remaining st then cs_remaining st else cs_to_read st)"
    from copy_iteration_multiblock_progress [OF rb wc True less.prems to_read_def]
    obtain st' where st': "copy_iteration dvd_file os STRATEGY_SKIP_MULTIBLOCK st = Inr st'"
      "cs_remaining st' = cs_remaining st - to_read" "cs_to_read st' = to_read"
      "length (content (cs_destination st')) =
         length (content (cs_destination st)) + nat to_read * DVD_VIDEO_LB_LEN"
      by blast
    have tr: "1 \<le> to_read" "to_read \<le> int BUFFER_SIZE" "to_read \<le> cs_remaining st"
      using True less.prems by (auto simp: to_read_def)
    have dec: "nat (cs_remaining st') < nat (cs_remaining st)" using st'(2) tr True by simp
    from less.hyps [OF dec] st'(3) tr
    obtain fd' where fd': "copy_loop dvd_file os STRATEGY_SKIP_MULTIBLOCK st' = Some (0, fd')"
      "length (content fd') =
         length (content (cs_destination st')) + nat (cs_remaining st') * DVD_VIDEO_LB_LEN"
      by auto
    have "nat to_read * DVD_VIDEO_LB_LEN + nat (cs_remaining st - to_read) * DVD_VIDEO_LB_LEN
            = nat (cs_remaining st) * DVD_VIDEO_LB_LEN"
      using tr by (simp add: add_mult_distrib [symmetric] nat_add_distrib [symmetric])
    with fd' st' have "length (content fd') =
         length (content (cs_destination st)) + nat (cs_remaining st) * DVD_VIDEO_LB_LEN"
      by simp
    moreover have "copy_loop dvd_file os STRATEGY_SKIP_MULTIBLOCK st = Some (0, fd')"
      using True st'(1) fd'(1) by (subst copy_loop.simps) simp
    ultimately show ?thesis by blast
  qed
qed

lemma DVDCopyBlocks_multiblock:
  assumes "reads_bounded dvd_file" "writes_complete os"
  shows "\<exists>fd'. DVDCopyBlocks dvd_file os destination offset sz STRATEGY_SKIP_MULTIBLOCK = Some (0, fd') \<and>
       length (content fd') = length (content destination) + nat sz * DVD_VIDEO_LB_LEN"
  using copy_loop_multiblock [OF assms, of "\<lparr>cs_offset = offset, cs_remaining = sz,
      cs_to_read = int BUFFER_SIZE, cs_destination = destination\<rparr>"]
  by (simp add: DVDCopyBlocks_def BUFFER_SIZE_def)

lemma quiet_os_writes_complete: "writes_complete quiet_os"
  by (simp add: writes_complete_def quiet_os_def)

text \<open>
  Claim C1. Let every \<^verbatim>\<open>write\<close> store what it is given and let the strategy be
  \<^verbatim>\<open>STRATEGY_SKIP_MULTIBLOCK\<close>. A pass of the copy loop whose read of \<open>to_read\<close>
  blocks returns \<open>got < to_read\<close> (a negative value counting as 0) appends the
  \<open>got\<close> blocks read and then \<open>to_read - got\<close> blocks of 2048 zero bytes to the
  destination, moves \<^verbatim>\<open>offset\<close> forward and \<^verbatim>\<open>remaining\<close> down by \<open>to_read\<close>,
  and goes on with the loop. On a disc that never reports more blocks than asked for,
  \<^verbatim>\<open>DVDCopyBlocks\<close> returns 0 after having written the whole size in blocks.
\<close>

theorem C1_skip_multiblock:
  "writes_complete os \<Longrightarrow>
   (0 < cs_remaining st \<and> 1 \<le> cs_to_read st \<and> cs_to_read st \<le> int BUFFER_SIZE \<and>
    to_read = min (cs_to_read st) (cs_remaining st) \<and>
    got = read_ret dvd_file (cs_offset st) to_read \<and> got < to_read \<and> g = max got 0 \<longrightarrow>
      (\<exists>st'. copy_iteration dvd_file os STRATEGY_SKIP_MULTIBLOCK st = Inr st' \<and>
         cs_offset st' = cs_offset st + to_read \<and>
         cs_remaining st' = cs_remaining st - to_read \<and>
         content (cs_destination st') =
           content (cs_destination st) @
           buffer_bytes dvd_file (cs_offset st) to_read (nat g * DVD_VIDEO_LB_LEN) @
           replicate (nat (to_read - g) * DVD_VIDEO_LB_LEN) 0)) \<and>
   (reads_bounded dvd_file \<longrightarrow>
      (\<exists>fd'. DVDCopyBlocks dvd_file os destination offset sz STRATEGY_SKIP_MULTIBLOCK = Some (0, fd') \<and>
         length (content fd') = length (content destination) + nat sz * DVD_VIDEO_LB_LEN))"
proof (intro conjI impI)
  assume wc: "writes_complete os"
    and a: "0 < cs_remaining st \<and> 1 \<le> cs_to_read st \<and> cs_to_read st \<le> int BUFFER_SIZE \<and>
      to_read = min (cs_to_read st) (cs_remaining st) \<and>
      got = read_ret dvd_file (cs_offset st) to_read \<and> got < to_read \<and> g = max got 0"
  then have tr: "to_read = (if cs_to_read st > cs_remaining st then cs_remaining st else cs_to_read st)"
    and b: "0 < to_read" "to_read \<le> int BUFFER_SIZE"
    and got: "got = read_ret dvd_file (cs_offset st) to_read" "got < to_read"
    and g: "g = (if got < 0 then 0 else got)"
    by (auto simp: min_def max_def)
  from copy_iteration_short_multiblock [OF wc tr b got g]
  show "\<exists>st'. copy_iteration dvd_file os STRATEGY_SKIP_MULTIBLOCK st = Inr st' \<and>
         cs_offset st' = cs_offset st + to_read \<and>
         cs_remaining st' = cs_remaining st - to_read \<and>
         content (cs_destination st') =
           content (cs_destination st) @
           buffer_bytes dvd_file (cs_offset st) to_read (nat g * DVD_VIDEO_LB_LEN) @
           replicate (nat (to_read - g) * DVD_VIDEO_LB_LEN) 0"
    by blast
next
  assume "writes_complete os" "reads_bounded dvd_file"
  then show "\<exists>fd'. DVDCopyBlocks dvd_file os destination offset sz STRATEGY_SKIP_MULTIBLOCK = Some (0, fd') \<and>
         length (content fd') = length (content destination) + nat sz * DVD_VIDEO_LB_LEN"
    using DVDCopyBlocks_multiblock by blast
qed

text \<open>
  The scenario of the specification: a request of 512 blocks is answered with 17; the
  destination receives those 17 blocks and 495 zero blocks, and the copy returns 0.
\<close>

theorem C1_skip_multiblock_witness:
  "\<exists>fd'. DVDCopyBlocks (short_disc 0 17) quiet_os \<lparr>content = [], writes = []\<rparr> 0 512
            STRATEGY_SKIP_MULTIBLOCK = Some (0, fd') \<and>
          content fd' =
            buffer_bytes (short_disc 0 17) 0 512 (17 * DVD_VIDEO_LB_LEN) @
            replicate (495 * DVD_VIDEO_LB_LEN) 0 \<and>
          length (content fd') = 512 * DVD_VIDEO_LB_LEN"
proof -
  let ?d = "short_disc 0 17"
  let ?st = "\<lparr>cs_offset = 0, cs_remaining = 512, cs_to_read = int BUFFER_SIZE,
              cs_destination = \<lparr>content = [], writes = []\<rparr>\<rparr>"
  have h: "0 < cs_remaining ?st \<and> 1 \<le> cs_to_read ?st \<and> cs_to_read ?st \<le> int BUFFER_SIZE \<and>
    (512 :: int) = min (cs_to_read ?st) (cs_remaining ?st) \<and>
    (17 :: int) = read_ret ?d (cs_offset ?st) 512 \<and> (17 :: int) < 512 \<and> (17 :: int) = max 17 0"
    by (simp add: BUFFER_SIZE_def short_disc_def)
  from C1_skip_multiblock [OF quiet_os_writes_complete, of ?st 512 17 ?d 17,
      THEN conjunct1, rule_format, OF h]
  obtain st' where st': "copy_iteration ?d quiet_os STRATEGY_SKIP_MULTIBLOCK ?st = Inr st'"
    "cs_remaining st' = 0"
    "content (cs_destination st') =
       buffer_bytes ?d 0 512 (17 * DVD_VIDEO_LB_LEN) @ replicate (495 * DVD_VIDEO_LB_LEN) 0"
    by auto
  have "copy_loop ?d quiet_os STRATEGY_SKIP_MULTIBLOCK st' = Some (0, cs_destination st')"
    using st'(2) by (subst copy_loop.simps) simp
  then have "copy_loop ?d quiet_os STRATEGY_SKIP_MULTIBLOCK ?st = Some (0, cs_destination st')"
    using st'(1) by (subst copy_loop.simps) simp
  then have "DVDCopyBlocks ?d quiet_os \<lparr>content = [], writes = []\<rparr> 0 512
            STRATEGY_SKIP_MULTIBLOCK = Some (0, cs_destination st')"
    by (simp add: DVDCopyBlocks_def)
  moreover have "length (content (cs_destination st')) = 512 * DVD_VIDEO_LB_LEN"
    using st'(3) by simp
  ultimately show ?thesis using st'(3) by blast
qed

section \<open>Properties of the refresh\<close>

lemma frame_refl: "frame P bound f f"
  by (simp add: frame_def)

lemma frame_trans: "frame P bound f f' \<Longrightarrow> frame P bound f' f'' \<Longrightarrow> frame P bound f f''"
  unfolding frame_def by (auto simp: max_def split: if_splits)

lemma refill_rel_refl: "refill_rel P bound fd fd"
  by (simp add: refill_rel_def frame_refl writes_ok_def)

lemma writes_ok_append: "writes_ok P (a @ b) \<longleftrightarrow> writes_ok P a \<and> writes_ok P b"
  by (auto simp: writes_ok_def)

lemma refill_rel_trans:
  assumes "refill_rel P bound fd fd'" "refill_rel P bound fd' fd''"
  shows "refill_rel P bound fd fd''"
proof -
  from assms obtain n1 n2 where n: "writes fd' = writes fd @ n1" "writes_ok P n1"
    "writes fd'' = writes fd' @ n2" "writes_ok P n2"
    unfolding refill_rel_def by blast
  then have "writes fd'' = writes fd @ (n1 @ n2)" "writes_ok P (n1 @ n2)"
    by (simp_all add: writes_ok_append)
  moreover have "frame P bound (content fd) (content fd'')"
    using assms frame_trans unfolding refill_rel_def by blast
  ultimately show ?thesis unfolding refill_rel_def by blast
qed

lemma put_bytes_length:
  "data \<noteq> [] \<Longrightarrow> length (put_bytes f off data) = max (length f) (off + length data)"
  by (auto simp: put_bytes_def max_def)

lemma put_bytes_nth_below:
  assumes "i < off"
  shows "i < length (put_bytes f off data) \<Longrightarrow>
         put_bytes f off data ! i = (if i < length f then f ! i else 0)"
  using assms by (auto simp: put_bytes_def nth_append)

lemma put_bytes_nth_above:
  assumes "off + length data \<le> i" "i < length (put_bytes f off data)"
  shows "put_bytes f off data ! i = (if i < length f then f ! i else 0)"
proof (cases "data = []")
  case True
  with assms show ?thesis by (simp add: put_bytes_def)
next
  case False
  from assms False have il: "i < length f"
    by (auto simp: put_bytes_length max_def split: if_splits)
  then have ol: "off \<le> length f" using assms(1) by simp
  let ?pre = "take off f @ replicate (off - length f) 0 @ data"
  have lp: "length ?pre = off + length data" using ol by simp
  have "put_bytes f off data = ?pre @ drop (off + length data) f"
    using False by (simp add: put_bytes_def)
  then have "put_bytes f off data ! i = drop (off + length data) f ! (i - (off + length data))"
    using assms(1) lp by (simp only: nth_append) simp
  also have "\<dots> = f ! i" using assms(1) il by simp
  finally show ?thesis using il by simp
qed

lemma put_bytes_frame:
  assumes "\<forall>i. off \<le> i \<and> i < off + length data \<longrightarrow> P i" "off + length data \<le> bound"
  shows "frame P bound f (put_bytes f off data)"
proof (cases "data = []")
  case True
  then show ?thesis by (simp add: put_bytes_def frame_refl)
next
  case False
  have len: "length (put_bytes f off data) = max (length f) (off + length data)"
    using False by (rule put_bytes_length)
  show ?thesis
    unfolding frame_def
  proof (intro conjI allI impI)
    show "length f \<le> length (put_bytes f off data)" using len by simp
    show "length (put_bytes f off data) \<le> max (length f) bound" using len assms(2) by simp
  next
    fix i assume i: "i < length (put_bytes f off data)" and np: "\<not> P i"
    from np assms(1) have "i < off \<or> off + length data \<le> i" by (meson not_le)
    then show "put_bytes f off data ! i = (if i < length f then f ! i else 0)"
      using put_bytes_nth_below [of i off f data] put_bytes_nth_above [of off data i f] i
      by blast
  qed
qed

lemma pwrite_rel:
  assumes "\<forall>i. off \<le> i \<and> i < off + length data \<longrightarrow> P i" "off + length data \<le> bound"
    and "off mod DVD_VIDEO_LB_LEN = 0"
  shows "refill_rel P bound fd (snd (pwrite os fd data off))"
proof -
  define k where "k = (if write_ret os off (length data) < 0 then 0
                       else min (nat (write_ret os off (length data))) (length data))"
  have kl: "length (take k data) \<le> length data" by simp
  have "frame P bound (content fd) (put_bytes (content fd) off (take k data))"
    by (rule put_bytes_frame) (use assms kl in auto)
  moreover have "writes_ok P [(off, length data)]"
    using assms by (simp add: writes_ok_def)
  ultimately show ?thesis
    unfolding refill_rel_def pwrite_def Let_def k_def by simp
qed

lemma seg_ok_sub:
  assumes "seg_ok P bound s c" "s \<le> s'" "s' + c' \<le> s + c"
  shows "seg_ok P bound s' c'"
proof -
  have a: "s * DVD_VIDEO_LB_LEN \<le> s' * DVD_VIDEO_LB_LEN"
    using assms(2) by (rule mult_le_mono1)
  have b: "(s' + c') * DVD_VIDEO_LB_LEN \<le> (s + c) * DVD_VIDEO_LB_LEN"
    using assms(3) by (rule mult_le_mono1)
  show ?thesis
    using assms(1) a b unfolding seg_ok_def
    by (meson le_trans less_le_trans)
qed

text \<open>Filling a segment that lies inside the target writes inside the target.\<close>

lemma gap_process_step_rel:
  assumes rb: "reads_bounded dvd_file" and c: "cursor < n" and ok: "seg_ok P bound s n"
  shows "(gap_process_step os dvd_file dvd_offset s n errorstrat cursor fd filled = Inl (rc, fd', fl)
            \<longrightarrow> refill_rel P bound fd fd') \<and>
         (gap_process_step os dvd_file dvd_offset s n errorstrat cursor fd filled = Inr (c', fd', fl)
            \<longrightarrow> refill_rel P bound fd fd')"
proof -
  let ?L = DVD_VIDEO_LB_LEN
  define chunk where "chunk = (if n - cursor > BUFFER_SIZE then BUFFER_SIZE else n - cursor)"
  define blocks_read where
    "blocks_read = read_ret dvd_file (dvd_offset + int (s + cursor)) (int chunk)"
  define usable where "usable = (if blocks_read = int chunk then chunk
                              else if blocks_read > 0 then nat blocks_read else 0)"
  define wr where "wr = (if usable > 0
                then pwrite os fd
                       (buffer_bytes dvd_file (dvd_offset + int (s + cursor)) (int chunk)
                          (usable * ?L))
                       ((s + cursor) * ?L)
                else (0, fd))"
  have "blocks_read \<le> int chunk" using rb by (simp add: blocks_read_def reads_bounded_def)
  then have ul: "usable \<le> chunk" by (auto simp: usable_def)
  have cl: "chunk \<le> n - cursor" by (simp add: chunk_def)
  have sub: "seg_ok P bound (s + cursor) usable"
    using seg_ok_sub [OF ok, of "s + cursor" usable] ul cl c by simp
  have rel: "refill_rel P bound fd (snd wr)"
  proof (cases "usable > 0")
    case False
    then show ?thesis by (simp add: wr_def refill_rel_refl)
  next
    case True
    have "refill_rel P bound fd
            (snd (pwrite os fd
                    (buffer_bytes dvd_file (dvd_offset + int (s + cursor)) (int chunk) (usable * ?L))
                    ((s + cursor) * ?L)))"
    proof (rule pwrite_rel)
      show "\<forall>i. (s + cursor) * ?L \<le> i \<and>
              i < (s + cursor) * ?L +
                  length (buffer_bytes dvd_file (dvd_offset + int (s + cursor)) (int chunk) (usable * ?L))
              \<longrightarrow> P i"
        using sub by (simp add: seg_ok_def add_mult_distrib buffer_bytes_def)
      show "(s + cursor) * ?L +
              length (buffer_bytes dvd_file (dvd_offset + int (s + cursor)) (int chunk) (usable * ?L))
            \<le> bound"
        using sub by (simp add: seg_ok_def add_mult_distrib buffer_bytes_def)
      show "(s + cursor) * ?L mod ?L = 0" by simp
    qed
    with True show ?thesis by (simp add: wr_def)
  qed
  have "gap_process_step os dvd_file dvd_offset s n errorstrat cursor fd filled = Inl (rc, fd', fl)
          \<Longrightarrow> fd' = snd wr"
    unfolding gap_process_step_def Let_def chunk_def [symmetric] blocks_read_def [symmetric]
      usable_def [symmetric] wr_def [symmetric]
    by (simp split: if_splits)
  moreover have "gap_process_step os dvd_file dvd_offset s n errorstrat cursor fd filled = Inr (c', fd', fl)
          \<Longrightarrow> fd' = snd wr"
    unfolding gap_process_step_def Let_def chunk_def [symmetric] blocks_read_def [symmetric]
      usable_def [symmetric] wr_def [symmetric]
    by (simp split: if_splits)
  ultimately show ?thesis using rel by blast
qed

lemma gap_process_loop_rel:
  assumes rb: "reads_bounded dvd_file" and ok: "seg_ok P bound s n"
  shows "refill_rel P bound fd
           (fst (snd (gap_process_loop os dvd_file dvd_offset s n errorstrat cursor fd filled)))"
proof (induction "n - cursor" arbitrary: cursor fd filled rule: less_induct)
  case less
  show ?case
  proof (cases "cursor < n")
    case False
    then show ?thesis
      by (simp add: gap_process_loop.simps [of os dvd_file dvd_offset s n errorstrat cursor fd filled]
          refill_rel_refl)
  next
    case True
    show ?thesis
    proof (cases "gap_process_step os dvd_file dvd_offset s n errorstrat cursor fd filled")
      case (Inl res)
      obtain rc fd' fl where res: "res = (rc, fd', fl)" by (cases res)
      with gap_process_step_rel [OF rb True ok, of os dvd_offset errorstrat fd filled rc fd' fl] Inl
      have "refill_rel P bound fd fd'" by simp
      with True Inl res show ?thesis
        by (simp add: gap_process_loop.simps [of os dvd_file dvd_offset s n errorstrat cursor fd filled])
    next
      case (Inr nxt)
      obtain c' fd' fl where nxt: "nxt = (c', fd', fl)" by (cases nxt)
      with gap_process_step_rel [OF rb True ok, of os dvd_offset errorstrat fd filled _ fd' fl c'] Inr
      have r1: "refill_rel P bound fd fd'" by simp
      have adv: "cursor < c'"
      proof -
        define chunk where "chunk = (if n - cursor > BUFFER_SIZE then BUFFER_SIZE else n - cursor)"
        define blocks_read where
          "blocks_read = read_ret dvd_file (dvd_offset + int (s + cursor)) (int chunk)"
        define usable where
          "usable = (if blocks_read = int chunk then chunk
                     else if blocks_read > 0 then nat blocks_read else 0)"
        define remaining where "remaining = n - (cursor + usable)"
        define skip0 where
          "skip0 = (if errorstrat = STRATEGY_SKIP_BLOCK then 1
                    else (if chunk - usable = 0 then 1 else chunk - usable))"
        define skip where "skip = (if skip0 > remaining then remaining else skip0)"
        have c: "0 < chunk" using True by (simp add: chunk_def BUFFER_SIZE_def)
        have "0 < skip0" by (simp add: skip0_def)
        then have sk: "remaining \<noteq> 0 \<Longrightarrow> 0 < skip" by (simp add: skip_def)
        have "gap_process_step os dvd_file dvd_offset s n errorstrat cursor fd filled =
                Inr (c', fd', fl)"
          using Inr nxt by simp
        then have "c' = n \<or> (remaining \<noteq> 0 \<and> c' = cursor + usable + skip) \<or>
              c' = cursor + chunk"
          unfolding gap_process_step_def Let_def chunk_def [symmetric] blocks_read_def [symmetric]
            usable_def [symmetric] remaining_def [symmetric] skip0_def [symmetric]
            skip_def [symmetric]
          by (simp split: if_splits)
        then show ?thesis using True c sk by auto
      qed
      then have "n - c' < n - cursor" using True by simp
      from less.hyps [OF this]
      have r2: "refill_rel P bound fd'
           (fst (snd (gap_process_loop os dvd_file dvd_offset s n errorstrat c' fd' fl)))" .
      have "gap_process_loop os dvd_file dvd_offset s n errorstrat cursor fd filled =
            gap_process_loop os dvd_file dvd_offset s n errorstrat c' fd' fl"
        using True Inr nxt
        by (simp add: gap_process_loop.simps [of os dvd_file dvd_offset s n errorstrat cursor fd filled])
      with refill_rel_trans [OF r1 r2] show ?thesis by simp
    qed
  qed
qed

lemma gap_process_segment_rel:
  assumes "reads_bounded dvd_file" "seg_ok P bound s n"
  shows "refill_rel P bound fd
           (fst (snd (gap_process_segment os fd dvd_file dvd_offset s n errorstrat filled)))"
  unfolding gap_process_segment_def using gap_process_loop_rel [OF assms] .

text \<open>The traversals of a list of segments.\<close>

lemma process_segments_rel:
  assumes rb: "reads_bounded dvd_file"
  shows "(\<forall>x \<in> set segs. seg_ok P bound (fst x) (snd x)) \<Longrightarrow>
     refill_rel P bound fd
       (fst (snd (process_segments os dvd_file dvd_offset errorstrat segs fd filled)))"
proof (induction segs arbitrary: fd filled)
  case Nil
  then show ?case by (simp add: refill_rel_refl)
next
  case (Cons x segs)
  obtain s c where x: "x = (s, c)" by (cases x)
  obtain rc fd' fl where g: "gap_process_segment os fd dvd_file dvd_offset s c errorstrat filled = (rc, fd', fl)"
    by (cases "gap_process_segment os fd dvd_file dvd_offset s c errorstrat filled")
  have ok: "seg_ok P bound s c" using Cons.prems x by simp
  from gap_process_segment_rel [OF rb ok, of fd os dvd_offset errorstrat filled] g
  have r1: "refill_rel P bound fd fd'" by simp
  show ?case
  proof (cases "rc \<noteq> 0")
    case True
    with x g r1 show ?thesis by simp
  next
    case False
    have "refill_rel P bound fd'
       (fst (snd (process_segments os dvd_file dvd_offset errorstrat segs fd' fl)))"
      using Cons.IH Cons.prems by simp
    from refill_rel_trans [OF r1 this] False x g show ?thesis by simp
  qed
qed

lemma reverse_loop_rel:
  assumes rb: "reads_bounded dvd_file" and ok: "seg_ok P bound rs n"
  shows "refill_rel P bound fd
       (fst (snd (reverse_loop os dvd_file dvd_offset errorstrat rs n processed fd filled)))"
proof (induction "n - processed" arbitrary: processed fd filled rule: less_induct)
  case less
  show ?case
  proof (cases "processed < n")
    case False
    then show ?thesis
      by (simp add: reverse_loop.simps [of os dvd_file dvd_offset errorstrat rs n processed fd filled]
          refill_rel_refl)
  next
    case True
    define chunk where "chunk = (if n - processed > BUFFER_SIZE then BUFFER_SIZE else n - processed)"
    have ch: "0 < chunk" "chunk \<le> n - processed" using True by (auto simp: chunk_def BUFFER_SIZE_def)
    define st where "st = rs + n - processed - chunk"
    have sub: "seg_ok P bound st chunk"
      using seg_ok_sub [OF ok, of st chunk] ch True by (simp add: st_def)
    obtain rc fd' fl where g: "gap_process_segment os fd dvd_file dvd_offset st chunk errorstrat filled = (rc, fd', fl)"
      by (cases "gap_process_segment os fd dvd_file dvd_offset st chunk errorstrat filled")
    from gap_process_segment_rel [OF rb sub, of fd os dvd_offset errorstrat filled] g
    have r1: "refill_rel P bound fd fd'" by simp
    show ?thesis
    proof (cases "rc \<noteq> 0")
      case rc: True
      have "reverse_loop os dvd_file dvd_offset errorstrat rs n processed fd filled = (1, fd', fl)"
        using True g rc unfolding chunk_def st_def
        by (simp add: reverse_loop.simps [of os dvd_file dvd_offset errorstrat rs n processed fd filled] Let_def)
      with r1 show ?thesis by simp
    next
      case rc: False
      have e: "reverse_loop os dvd_file dvd_offset errorstrat rs n processed fd filled =
               reverse_loop os dvd_file dvd_offset errorstrat rs n (processed + chunk) fd' fl"
        using True g rc unfolding chunk_def st_def
        by (simp add: reverse_loop.simps [of os dvd_file dvd_offset errorstrat rs n processed fd filled] Let_def)
      have "n - (processed + chunk) < n - processed" using ch True by simp
      from less.hyps [OF this]
      have "refill_rel P bound fd'
        (fst (snd (reverse_loop os dvd_file dvd_offset errorstrat rs n (processed + chunk) fd' fl)))" .
      from refill_rel_trans [OF r1 this] e show ?thesis by simp
    qed
  qed
qed

lemma outside_in_loop_rel:
  assumes rb: "reads_bounded dvd_file" and ok: "seg_ok P bound rs n"
  shows "bk \<le> n \<Longrightarrow> refill_rel P bound fd
       (fst (snd (outside_in_loop os dvd_file dvd_offset errorstrat rs front bk use_front fd filled)))"
proof (induction "bk - front" arbitrary: front bk use_front fd filled rule: less_induct)
  case less
  show ?case
  proof (cases "front < bk")
    case False
    then show ?thesis
      by (simp add: outside_in_loop.simps [of os dvd_file dvd_offset errorstrat rs front bk use_front fd filled]
          refill_rel_refl)
  next
    case True
    define chunk where "chunk = (if bk - front > BUFFER_SIZE then BUFFER_SIZE else bk - front)"
    have ch: "0 < chunk" "chunk \<le> bk - front" using True by (auto simp: chunk_def BUFFER_SIZE_def)
    define st where "st = (if use_front then rs + front else rs + (bk - chunk))"
    have sub: "seg_ok P bound st chunk"
      using seg_ok_sub [OF ok, of st chunk] ch True less.prems by (auto simp: st_def)
    obtain rc fd' fl where g: "gap_process_segment os fd dvd_file dvd_offset st chunk errorstrat filled = (rc, fd', fl)"
      by (cases "gap_process_segment os fd dvd_file dvd_offset st chunk errorstrat filled")
    from gap_process_segment_rel [OF rb sub, of fd os dvd_offset errorstrat filled] g
    have r1: "refill_rel P bound fd fd'" by simp
    show ?thesis
    proof (cases "rc \<noteq> 0")
      case rc: True
      have "outside_in_loop os dvd_file dvd_offset errorstrat rs front bk use_front fd filled = (1, fd', fl)"
        using True g rc unfolding chunk_def st_def
        by (simp add: outside_in_loop.simps [of os dvd_file dvd_offset errorstrat rs front bk use_front fd filled] Let_def)
      with r1 show ?thesis by simp
    next
      case rc: False
      let ?fr2 = "if use_front then front + chunk else front"
      let ?bk2 = "if use_front then bk else bk - chunk"
      have e: "outside_in_loop os dvd_file dvd_offset errorstrat rs front bk use_front fd filled =
               outside_in_loop os dvd_file dvd_offset errorstrat rs ?fr2 ?bk2 (\<not> use_front) fd' fl"
        using True g rc unfolding chunk_def st_def
        by (simp add: outside_in_loop.simps [of os dvd_file dvd_offset errorstrat rs front bk use_front fd filled] Let_def)
      have dec: "?bk2 - ?fr2 < bk - front" using ch True by auto
      have bn: "?bk2 \<le> n" using less.prems by auto
      from less.hyps [OF dec bn]
      have "refill_rel P bound fd'
        (fst (snd (outside_in_loop os dvd_file dvd_offset errorstrat rs ?fr2 ?bk2 (\<not> use_front) fd' fl)))" .
      from refill_rel_trans [OF r1 this] e show ?thesis by simp
    qed
  qed
qed

lemma fill_range_rel:
  assumes rb: "reads_bounded dvd_file" and ok: "seg_ok P bound (start_block r) (block_count r)"
  shows "refill_rel P bound fd
       (fst (snd (fill_range os strategy dvd_file dvd_offset errorstrat r fd filled)))"
proof (cases strategy)
  case GAP_STRATEGY_FORWARD
  obtain rc fd' fl where g: "gap_process_segment os fd dvd_file dvd_offset (start_block r) (block_count r) errorstrat filled = (rc, fd', fl)"
    by (cases "gap_process_segment os fd dvd_file dvd_offset (start_block r) (block_count r) errorstrat filled")
  from gap_process_segment_rel [OF rb ok, of fd os dvd_offset errorstrat filled] g
  have "refill_rel P bound fd fd'" by simp
  with GAP_STRATEGY_FORWARD g show ?thesis by (simp add: fill_range_def)
next
  case GAP_STRATEGY_REVERSE
  then show ?thesis using reverse_loop_rel [OF rb ok] by (simp add: fill_range_def)
next
  case GAP_STRATEGY_OUTSIDE_IN
  then show ?thesis using outside_in_loop_rel [OF rb ok, of "block_count r"] by (simp add: fill_range_def)
next
  case GAP_STRATEGY_RANDOM
  then show ?thesis by (simp add: fill_range_def refill_rel_refl)
qed

lemma fill_ranges_rel:
  assumes rb: "reads_bounded dvd_file"
  shows "(\<forall>r \<in> set rs. seg_ok P bound (start_block r) (block_count r)) \<Longrightarrow>
     refill_rel P bound fd
       (fst (snd (fill_ranges os strategy dvd_file dvd_offset errorstrat rs fd filled)))"
proof (induction rs arbitrary: fd filled)
  case Nil
  then show ?case by (simp add: refill_rel_refl)
next
  case (Cons r rs)
  obtain rc fd' fl where g: "fill_range os strategy dvd_file dvd_offset errorstrat r fd filled = (rc, fd', fl)"
    by (cases "fill_range os strategy dvd_file dvd_offset errorstrat r fd filled")
  have ok: "seg_ok P bound (start_block r) (block_count r)" using Cons.prems by simp
  from fill_range_rel [OF rb ok, of fd os strategy dvd_offset errorstrat filled] g
  have r1: "refill_rel P bound fd fd'" by simp
  show ?case
  proof (cases "rc \<noteq> 0")
    case True
    with g r1 show ?thesis by simp
  next
    case False
    have "refill_rel P bound fd'
       (fst (snd (fill_ranges os strategy dvd_file dvd_offset errorstrat rs fd' fl)))"
      using Cons.IH Cons.prems by simp
    from refill_rel_trans [OF r1 this] False g show ?thesis by simp
  qed
qed

text \<open>The segments cut from the ranges of a plan lie inside the ranges.\<close>

lemma segments_of_range_ok:
  assumes ok: "seg_ok P bound rs n"
  shows "(\<forall>x \<in> set (fst acc). seg_ok P bound (fst x) (snd x)) \<Longrightarrow>
     segments_of_range os rs n produced acc = Some acc' \<Longrightarrow>
     (\<forall>x \<in> set (fst acc'). seg_ok P bound (fst x) (snd x))"
proof (induction "n - produced" arbitrary: produced acc rule: less_induct)
  case less
  obtain segs cap where acc: "acc = (segs, cap)" by (cases acc)
  show ?case
  proof (cases "produced < n")
    case False
    then have "segments_of_range os rs n produced (segs, cap) = Some (segs, cap)"
      by (simp add: segments_of_range.simps [of os rs n produced segs cap])
    with less.prems acc have "acc' = acc" by simp
    with less.prems(1) show ?thesis by simp
  next
    case True
    define chunk where "chunk = (if n - produced > BUFFER_SIZE then BUFFER_SIZE else n - produced)"
    have ch: "0 < chunk" "chunk \<le> n - produced" using True by (auto simp: chunk_def BUFFER_SIZE_def)
    define ncap where "ncap = (if cap = 0 then 32 else cap * 2)"
    let ?acc = "(segs @ [(rs + produced, chunk)], if length segs = cap then ncap else cap)"
    have sub: "seg_ok P bound (rs + produced) chunk"
      using seg_ok_sub [OF ok, of "rs + produced" chunk] ch True by simp
    from less.prems(2) acc True
    have e: "segments_of_range os rs n (produced + chunk) ?acc = Some acc'"
      unfolding chunk_def ncap_def
      by (simp add: segments_of_range.simps [of os rs n produced segs cap] Let_def split: if_splits)
    have a: "\<forall>x \<in> set (fst ?acc). seg_ok P bound (fst x) (snd x)"
      using less.prems(1) acc sub by simp
    have "n - (produced + chunk) < n - produced" using ch True by simp
    from less.hyps [OF this a e] show ?thesis .
  qed
qed

lemma segments_of_plan_ok:
  "(\<forall>r \<in> set rs. seg_ok P bound (start_block r) (block_count r)) \<Longrightarrow>
   (\<forall>x \<in> set (fst acc). seg_ok P bound (fst x) (snd x)) \<Longrightarrow>
   segments_of_plan os rs acc = Some acc' \<Longrightarrow>
   (\<forall>x \<in> set (fst acc'). seg_ok P bound (fst x) (snd x))"
proof (induction rs arbitrary: acc)
  case Nil
  then show ?case by simp
next
  case (Cons r rs)
  from Cons.prems(3) obtain mid where
    m: "segments_of_range os (start_block r) (block_count r) 0 acc = Some mid"
    and rest: "segments_of_plan os rs mid = Some acc'"
    by (auto split: option.splits)
  have ok: "seg_ok P bound (start_block r) (block_count r)" using Cons.prems(1) by simp
  have "\<forall>x \<in> set (fst mid). seg_ok P bound (fst x) (snd x)"
    using segments_of_range_ok [OF ok Cons.prems(2) m] .
  with Cons.IH [of mid] Cons.prems(1) rest show ?case by simp
qed

lemma shuffle_loop_set:
  "i \<le> length segs \<Longrightarrow> set (shuffle_loop os seed i k segs) = set segs"
proof (induction os seed i k segs rule: shuffle_loop.induct)
  case (1 os seed i k segments)
  show ?case
  proof (cases "i > 1")
    case False
    then show ?thesis by (simp add: shuffle_loop.simps [of os seed i k segments])
  next
    case True
    define j where "j = nat (rand_ret os seed k mod int i)"
    have "rand_ret os seed k mod int i < int i" using True by simp
    moreover have "0 \<le> rand_ret os seed k mod int i" using True by simp
    ultimately have ji: "j < i" unfolding j_def by linarith
    let ?s = "segments[i - 1 := segments ! j, j := segments ! (i - 1)]"
    have e: "shuffle_loop os seed i k segments = shuffle_loop os seed (i - 1) (Suc k) ?s"
      using True unfolding j_def
      by (simp add: shuffle_loop.simps [of os seed i k segments] Let_def)
    have sw: "set ?s = set segments"
      using set_swap [of "i - 1" segments j] ji True "1.prems" by simp
    have "set (shuffle_loop os seed (i - 1) (Suc k) ?s) = set ?s"
      using "1.IH" [OF True j_def] "1.prems" by simp
    with e sw show ?thesis by simp
  qed
qed

lemma gap_fill_from_plan_rel:
  assumes rb: "reads_bounded dvd_file"
    and ok: "\<forall>r \<in> set (ranges pl). seg_ok P bound (start_block r) (block_count r)"
  shows "refill_rel P bound fd
           (fst (snd (gap_fill_from_plan os cfg fd dvd_file dvd_offset pl errorstrat)))"
proof (cases "ranges pl = [] \<or> malloc_fails os")
  case True
  then show ?thesis by (auto simp: gap_fill_from_plan_def refill_rel_refl)
next
  case False
  show ?thesis
  proof (cases "gap_strategy cfg = GAP_STRATEGY_RANDOM")
    case rnd: False
    with False show ?thesis
      using fill_ranges_rel [OF rb ok] by (simp add: gap_fill_from_plan_def)
  next
    case rnd: True
    show ?thesis
    proof (cases "segments_of_plan os (ranges pl) ([], 0)")
      case None
      with False rnd show ?thesis by (simp add: gap_fill_from_plan_def refill_rel_refl)
    next
      case (Some acc)
      obtain segs cap where acc: "acc = (segs, cap)" by (cases acc)
      have "\<forall>x \<in> set (fst acc). seg_ok P bound (fst x) (snd x)"
        using segments_of_plan_ok [OF ok _ Some] by simp
      then have "\<forall>x \<in> set (shuffle_loop os
                    (if gap_random_seed_set cfg then gap_random_seed cfg else 0)
                    (length segs) 0 segs). seg_ok P bound (fst x) (snd x)"
        using acc by (simp add: shuffle_loop_set)
      from process_segments_rel [OF rb this]
      show ?thesis using False rnd Some acc by (simp add: gap_fill_from_plan_def)
    qed
  qed
qed

text \<open>The plan computed for a refresh covers exactly the blocks to fill.\<close>

lemma in_gap_snoc:
  "in_gap (rs @ [r]) b \<longleftrightarrow> in_gap rs b \<or> (start_block r \<le> b \<and> b < start_block r + block_count r)"
  by (auto simp: in_gap_def)

lemma gap_plan_add_in_gap:
  assumes le: "\<forall>r \<in> set (ranges p). start_block r + block_count r \<le> s" and c: "0 < c"
    and g: "gap_plan_add ro p s c = (0, p')"
  shows "(\<forall>b. in_gap (ranges p') b \<longleftrightarrow> in_gap (ranges p) b \<or> (s \<le> b \<and> b < s + c)) \<and>
         (\<forall>r \<in> set (ranges p'). start_block r + block_count r \<le> s + c)"
proof (cases "ranges p \<noteq> [] \<and> s \<le> start_block (last (ranges p)) + block_count (last (ranges p))")
  case False
  then have "ranges p' = ranges p @ [\<lparr>start_block = s, block_count = c\<rparr>]"
    using g c unfolding gap_plan_add_def Let_def by (auto split: if_splits)
  then show ?thesis using le by (auto simp: in_gap_snoc)
next
  case True
  let ?l = "last (ranges p)"
  have rp: "ranges p = butlast (ranges p) @ [?l]" using True by simp
  have "?l \<in> set (ranges p)" using True by simp
  with le have "start_block ?l + block_count ?l \<le> s" by blast
  with True have e: "start_block ?l + block_count ?l = s" by simp
  then have r': "ranges p' = butlast (ranges p) @ [?l\<lparr>block_count := s + c - start_block ?l\<rparr>]"
    using g c True unfolding gap_plan_add_def Let_def by (auto split: if_splits)
  have old: "\<And>b. in_gap (ranges p) b \<longleftrightarrow>
     in_gap (butlast (ranges p)) b \<or> (start_block ?l \<le> b \<and> b < s)"
    using in_gap_snoc [of "butlast (ranges p)" ?l] rp e by simp
  have new: "\<And>b. in_gap (ranges p') b \<longleftrightarrow>
     in_gap (butlast (ranges p)) b \<or> (start_block ?l \<le> b \<and> b < s + c)"
    unfolding r' using e by (simp add: in_gap_snoc)
  have 1: "\<forall>b. in_gap (ranges p') b \<longleftrightarrow> in_gap (ranges p) b \<or> (s \<le> b \<and> b < s + c)"
    unfolding old new using e by auto
  have "\<forall>r \<in> set (butlast (ranges p)). start_block r + block_count r \<le> s + c"
  proof
    fix r assume "r \<in> set (butlast (ranges p))"
    then have "r \<in> set (ranges p)" by (rule in_set_butlastD)
    with le have "start_block r + block_count r \<le> s" by blast
    then show "start_block r + block_count r \<le> s + c" by simp
  qed
  then have 2: "\<forall>r \<in> set (ranges p'). start_block r + block_count r \<le> s + c"
    unfolding r' using e by auto
  from 1 2 show ?thesis by simp
qed

lemma scan_post_in_gap:
  assumes "scan_post B n rs"
  shows "in_gap rs b \<longleftrightarrow> b < n \<and> B b"
proof
  assume "in_gap rs b"
  then obtain r where r: "r \<in> set rs" "start_block r \<le> b" "b < start_block r + block_count r"
    by (auto simp: in_gap_def)
  with assms have "maximal_run B n (start_block r) (block_count r)"
    unfolding scan_post_def by blast
  with r show "b < n \<and> B b" by (auto simp: maximal_run_def)
next
  assume "b < n \<and> B b"
  with assms show "in_gap rs b" unfolding scan_post_def by blast
qed

lemma scan_post_bound:
  assumes "scan_post B n rs" "r \<in> set rs"
  shows "start_block r + block_count r \<le> n"
  using assms unfolding scan_post_def maximal_run_def by blast

lemma refresh_plan_props:
  assumes "refresh_plan os f E = Some (pl, bl, tr)"
  shows "plan_ordered (ranges pl) \<and>
         (\<forall>r \<in> set (ranges pl). start_block r + block_count r \<le> E) \<and>
         (\<forall>b. in_gap (ranges pl) b \<longleftrightarrow> refill_target f E b) \<and>
         bl = blank_count f E"
proof -
  let ?L = DVD_VIDEO_LB_LEN
  let ?B = "blank_block f"
  let ?n = "scanned_blocks f E"
  from assms obtain sr where sr: "scan_existing_file_for_gaps os f E empty_plan = Inr sr"
    unfolding refresh_plan_def by (auto split: sum.splits)
  with scan_existing_correct [of os f E]
  have post: "scan_post ?B ?n (ranges (sr_plan sr))"
    and bc: "sr_blank_blocks sr = blank_count f E"
    and full: "sr_full_blocks sr = length f div ?L"
    by simp_all
  have ex: "(if E < sr_full_blocks sr then E else sr_full_blocks sr) = ?n"
    using full by (simp add: scanned_blocks_def min_def)
  have ig: "\<And>b. in_gap (ranges (sr_plan sr)) b \<longleftrightarrow> b < ?n \<and> ?B b"
    using scan_post_in_gap [OF post] .
  have po: "plan_ordered (ranges (sr_plan sr))" using post by (simp add: scan_post_def)
  have blank_full: "\<And>b. ?B b \<Longrightarrow> b < length f div ?L"
  proof -
    fix b assume "?B b"
    then have "length (file_block f b) = ?L" by (simp add: blank_block_def)
    then have "?L \<le> length f - b * ?L" by (simp add: file_block_def min_def split: if_splits)
    then have "(b + 1) * ?L \<le> length f" using LB_pos by (simp add: add_mult_distrib)
    then have "b + 1 \<le> length f div ?L" using LB_pos by (simp add: less_eq_div_iff_mult_less_eq)
    then show "b < length f div ?L" by simp
  qed
  show ?thesis
  proof (cases "E > ?n")
    case False
    then have nE: "?n = E" by (simp add: scanned_blocks_def)
    then have El: "E \<le> length f div ?L" by (simp add: scanned_blocks_def)
    from assms sr ex False have "pl = sr_plan sr" "bl = sr_blank_blocks sr"
      unfolding refresh_plan_def by (simp_all add: Let_def)
    moreover have "\<forall>b. in_gap (ranges (sr_plan sr)) b \<longleftrightarrow> refill_target f E b"
    proof
      fix b
      have "in_gap (ranges (sr_plan sr)) b \<longleftrightarrow> b < E \<and> ?B b" using ig [of b] nE by simp
      also have "\<dots> \<longleftrightarrow> refill_target f E b"
        unfolding refill_target_def using El by auto
      finally show "in_gap (ranges (sr_plan sr)) b \<longleftrightarrow> refill_target f E b" .
    qed
    moreover have "\<forall>r \<in> set (ranges (sr_plan sr)). start_block r + block_count r \<le> E"
      using scan_post_bound [OF post] nE by simp
    ultimately show ?thesis using po bc by simp
  next
    case True
    then have nf: "?n = length f div ?L" by (simp add: scanned_blocks_def min_def split: if_splits)
    from assms sr ex True
    have g: "gap_plan_add (realloc_succeeds os) (sr_plan sr) ?n (E - ?n) = (0, pl)"
      and b: "bl = sr_blank_blocks sr"
      unfolding refresh_plan_def
      by (auto simp: Let_def split: prod.splits if_splits)
    have le: "\<forall>r \<in> set (ranges (sr_plan sr)). start_block r + block_count r \<le> ?n"
      using scan_post_bound [OF post] by simp
    have pos: "0 < E - ?n" using True by simp
    from gap_plan_add_in_gap [OF le pos g] True
    have ig': "\<And>b. in_gap (ranges pl) b \<longleftrightarrow> in_gap (ranges (sr_plan sr)) b \<or> (?n \<le> b \<and> b < E)"
      and bd: "\<forall>r \<in> set (ranges pl). start_block r + block_count r \<le> E"
      by simp_all
    have "\<forall>b. in_gap (ranges pl) b \<longleftrightarrow> refill_target f E b"
    proof
      fix b
      have "in_gap (ranges pl) b \<longleftrightarrow> (b < ?n \<and> ?B b) \<or> (?n \<le> b \<and> b < E)"
        using ig' [of b] ig [of b] by simp
      also have "\<dots> \<longleftrightarrow> (b < length f div ?L \<and> ?B b) \<or> (length f div ?L \<le> b \<and> b < E)"
        unfolding nf ..
      also have "\<dots> \<longleftrightarrow> refill_target f E b"
        unfolding refill_target_def using blank_full [of b] True nf by auto
      finally show "in_gap (ranges pl) b \<longleftrightarrow> refill_target f E b" .
    qed
    moreover have "plan_ordered (ranges pl)"
      using gap_plan_add_preserves [OF po, of "realloc_succeeds os" ?n "E - ?n"] g by simp
    ultimately show ?thesis using bd b bc by simp
  qed
qed

text \<open>The refresh as a whole.\<close>

lemma block_of_byte:
  assumes "s * DVD_VIDEO_LB_LEN \<le> i" "i < (s + c) * DVD_VIDEO_LB_LEN"
  shows "s \<le> i div DVD_VIDEO_LB_LEN \<and> i div DVD_VIDEO_LB_LEN < s + c"
  using assms LB_pos by (simp add: less_eq_div_iff_mult_less_eq div_less_iff_less_mult)

lemma plan_seg_ok:
  assumes "r \<in> set rs" "start_block r + block_count r \<le> E"
  shows "seg_ok (\<lambda>i. in_gap rs (i div DVD_VIDEO_LB_LEN)) (E * DVD_VIDEO_LB_LEN)
           (start_block r) (block_count r)"
  unfolding seg_ok_def
proof (intro conjI allI impI)
  fix i assume "start_block r * DVD_VIDEO_LB_LEN \<le> i \<and>
                i < (start_block r + block_count r) * DVD_VIDEO_LB_LEN"
  then have "start_block r \<le> i div DVD_VIDEO_LB_LEN \<and>
             i div DVD_VIDEO_LB_LEN < start_block r + block_count r"
    using block_of_byte by blast
  with assms(1) show "in_gap rs (i div DVD_VIDEO_LB_LEN)" unfolding in_gap_def by blast
next
  show "(start_block r + block_count r) * DVD_VIDEO_LB_LEN \<le> E * DVD_VIDEO_LB_LEN"
    using assms(2) by (rule mult_le_mono1)
qed

lemma refresh_rel:
  assumes rb: "reads_bounded dvd_file"
  shows "refill_rel (target_byte (content fd) E) (E * DVD_VIDEO_LB_LEN) fd
           (rr_destination (DVDCopyBlocksFillGaps os os2 cfg dvd_file fd offset E errorstrat))"
proof (cases "refresh_plan os (content fd) E")
  case None
  then show ?thesis by (simp add: DVDCopyBlocksFillGaps_def refill_rel_refl)
next
  case (Some x)
  obtain pl bl tr where x: "x = (pl, bl, tr)" by (cases x)
  from refresh_plan_props [of os "content fd" E pl bl tr] Some x
  have bd: "\<forall>r \<in> set (ranges pl). start_block r + block_count r \<le> E"
    and ig: "\<And>b. in_gap (ranges pl) b \<longleftrightarrow> refill_target (content fd) E b"
    by simp_all
  have P: "(\<lambda>i. in_gap (ranges pl) (i div DVD_VIDEO_LB_LEN)) = target_byte (content fd) E"
    by (rule ext) (simp add: target_byte_def ig)
  have ok: "\<forall>r \<in> set (ranges pl).
     seg_ok (target_byte (content fd) E) (E * DVD_VIDEO_LB_LEN) (start_block r) (block_count r)"
    using plan_seg_ok [of _ "ranges pl" E] bd unfolding P by blast
  let ?samples = "gap_collect_samples pl E GAP_SAMPLE_TARGET"
  show ?thesis
  proof (cases "length ?samples > 0 \<and>
                gap_verify_samples os (content fd) dvd_file offset ?samples \<noteq> 0")
    case True
    with Some x show ?thesis by (simp add: DVDCopyBlocksFillGaps_def Let_def refill_rel_refl)
  next
    case False
    obtain st fd' fl where g: "gap_fill_from_plan os cfg fd dvd_file offset pl errorstrat = (st, fd', fl)"
      by (cases "gap_fill_from_plan os cfg fd dvd_file offset pl errorstrat")
    from gap_fill_from_plan_rel [OF rb ok, of fd os cfg offset errorstrat] g
    have "refill_rel (target_byte (content fd) E) (E * DVD_VIDEO_LB_LEN) fd fd'" by simp
    moreover have "rr_destination (DVDCopyBlocksFillGaps os os2 cfg dvd_file fd offset E errorstrat) = fd'"
      using Some x False g by (auto simp: DVDCopyBlocksFillGaps_def Let_def)
    ultimately show ?thesis by simp
  qed
qed

lemma frame_block_unchanged:
  assumes fr: "frame (target_byte f E) bound f f'"
    and b: "b < length f div DVD_VIDEO_LB_LEN" "\<not> refill_target f E b"
  shows "file_block f' b = file_block f b"
proof -
  let ?L = DVD_VIDEO_LB_LEN
  have "b + 1 \<le> length f div ?L" using b(1) by simp
  then have fl: "(b + 1) * ?L \<le> length f" using LB_pos by (simp add: less_eq_div_iff_mult_less_eq)
  then have fl': "(b + 1) * ?L \<le> length f'" using fr by (simp add: frame_def)
  have l1: "length (file_block f b) = ?L" using fl by (simp add: file_block_def)
  have l2: "length (file_block f' b) = ?L" using fl' by (simp add: file_block_def)
  show ?thesis
  proof (rule nth_equalityI)
    show "length (file_block f' b) = length (file_block f b)" using l1 l2 by simp
  next
    fix j assume "j < length (file_block f' b)"
    then have j: "j < ?L" using l2 by simp
    then have lt: "b * ?L + j < length f" using fl by (simp add: add_mult_distrib)
    then have lt': "b * ?L + j < length f'" using fr by (simp add: frame_def)
    have "(b * ?L + j) div ?L = b" using j by simp
    then have "\<not> target_byte f E (b * ?L + j)" using b(2) by (simp add: target_byte_def)
    with fr lt lt' have "f' ! (b * ?L + j) = f ! (b * ?L + j)" by (simp add: frame_def)
    then show "file_block f' b ! j = file_block f b ! j"
      using j lt lt' by (simp add: file_block_def)
  qed
qed

lemma frame_tail_unchanged:
  assumes fr: "frame (target_byte f E) (E * DVD_VIDEO_LB_LEN) f f'"
  shows "drop (E * DVD_VIDEO_LB_LEN) f' = drop (E * DVD_VIDEO_LB_LEN) f"
proof -
  let ?L = DVD_VIDEO_LB_LEN
  have nt: "\<And>i. E * ?L \<le> i \<Longrightarrow> \<not> target_byte f E i"
  proof -
    fix i assume "E * ?L \<le> i"
    then have "E \<le> i div ?L" using LB_pos by (simp add: less_eq_div_iff_mult_less_eq)
    then show "\<not> target_byte f E i" by (simp add: target_byte_def refill_target_def)
  qed
  show ?thesis
  proof (cases "E * ?L \<le> length f")
    case False
    then have "length f' \<le> E * ?L" using fr by (simp add: frame_def max_def split: if_splits)
    with False show ?thesis by simp
  next
    case True
    then have len: "length f' = length f" using fr by (simp add: frame_def max_def)
    show ?thesis
    proof (rule nth_equalityI)
      show "length (drop (E * ?L) f') = length (drop (E * ?L) f)" using len by simp
    next
      fix j assume "j < length (drop (E * ?L) f')"
      then have j: "E * ?L + j < length f'" by simp
      have "\<not> target_byte f E (E * ?L + j)" using nt by simp
      with fr j len have "f' ! (E * ?L + j) = f ! (E * ?L + j)" by (simp add: frame_def)
      then show "drop (E * ?L) f' ! j = drop (E * ?L) f ! j" using j len by simp
    qed
  qed
qed

text \<open>A sample that differs makes the verification, and with it the refresh, fail.\<close>

lemma gap_verify_samples_mismatch:
  "s \<in> set samples \<Longrightarrow>
   buffer_bytes dvd_file (dvd_offset + int s) 1 DVD_VIDEO_LB_LEN \<noteq> file_block f s \<Longrightarrow>
   gap_verify_samples os f dvd_file dvd_offset samples = 1"
proof (induction samples)
  case Nil
  then show ?case by simp
next
  case (Cons x samples)
  show ?case
  proof (cases "x = s")
    case True
    then show ?thesis using Cons.prems(2)
      by (simp add: pread_def file_block_def)
  next
    case False
    with Cons have "gap_verify_samples os f dvd_file dvd_offset samples = 1" by simp
    then show ?thesis by (simp add: pread_def)
  qed
qed

lemma refresh_verify_fails:
  assumes pl: "refresh_plan os (content fd) E = Some (pl, bl, tr)"
    and s: "s \<in> set (gap_collect_samples pl E GAP_SAMPLE_TARGET)"
    and ne: "buffer_bytes dvd_file (offset + int s) 1 DVD_VIDEO_LB_LEN \<noteq> file_block (content fd) s"
  shows "DVDCopyBlocksFillGaps os os2 cfg dvd_file fd offset E errorstrat =
           \<lparr>rr_result = 1, rr_destination = fd, rr_report = None\<rparr>"
proof -
  have "gap_verify_samples os (content fd) dvd_file offset
          (gap_collect_samples pl E GAP_SAMPLE_TARGET) = 1"
    using gap_verify_samples_mismatch [OF s ne] .
  moreover have "length (gap_collect_samples pl E GAP_SAMPLE_TARGET) > 0"
    using s by (cases "gap_collect_samples pl E GAP_SAMPLE_TARGET") auto
  ultimately show ?thesis using pl by (simp add: DVDCopyBlocksFillGaps_def Let_def)
qed

text \<open>A refresh run evaluated: an empty file, one expected block, a disc of zeros.\<close>

lemma zero_disc_bounded: "reads_bounded zero_disc"
  by (simp add: reads_bounded_def zero_disc_def)

lemma zero_disc_bytes: "buffer_bytes zero_disc off n len = replicate len 0"
  by (simp add: buffer_bytes_def zero_disc_def map_replicate_const)

lemma put_bytes_empty: "put_bytes [] 0 data = data"
  by (simp add: put_bytes_def)

lemma refresh_result_fields:
  assumes "refresh_plan os (content fd) E = Some (pl, bl, tr)"
    and "gap_verify_samples os (content fd) dvd_file offset
           (gap_collect_samples pl E GAP_SAMPLE_TARGET) = 0"
    and "gap_fill_from_plan os cfg fd dvd_file offset pl errorstrat = (st, fd', fl)"
  shows "rr_result (DVDCopyBlocksFillGaps os os2 cfg dvd_file fd offset E errorstrat)
           = (if st \<noteq> 0 then 1 else 0)"
    and "rr_destination (DVDCopyBlocksFillGaps os os2 cfg dvd_file fd offset E errorstrat) = fd'"
  using assms by (simp_all add: DVDCopyBlocksFillGaps_def Let_def)

lemma example_plan:
  "refresh_plan quiet_os [] 1 =
     Some (\<lparr>ranges = [\<lparr>start_block = 0, block_count = 1\<rparr>], capacity = 8\<rparr>, 0, 1)"
  by (simp add: refresh_plan_def scan_existing_file_for_gaps_def scan_loop.simps
      empty_plan_def gap_plan_add_def quiet_os_def Let_def)

lemma example_samples:
  "gap_collect_samples \<lparr>ranges = [\<lparr>start_block = 0, block_count = 1\<rparr>], capacity = 8\<rparr> 1
     GAP_SAMPLE_TARGET = []"
  by (simp add: gap_collect_samples_def GAP_SAMPLE_TARGET_def gap_collect_loop.simps
      gap_sample_at_def forward_walk.simps backward_walk.simps gap_plan_contains_def Let_def)

lemma example_fill:
  "gap_fill_from_plan quiet_os forward_config \<lparr>content = [], writes = []\<rparr> zero_disc 0
     \<lparr>ranges = [\<lparr>start_block = 0, block_count = 1\<rparr>], capacity = 8\<rparr> STRATEGY_ABORT =
   (0, \<lparr>content = zero_block, writes = [(0, DVD_VIDEO_LB_LEN)]\<rparr>, 1)"
proof -
  have rd: "read_ret zero_disc 0 1 = 1" by (simp add: zero_disc_def)
  have step: "gap_process_step quiet_os zero_disc 0 0 1 STRATEGY_ABORT 0
                \<lparr>content = [], writes = []\<rparr> 0 =
              Inr (1, \<lparr>content = zero_block, writes = [(0, DVD_VIDEO_LB_LEN)]\<rparr>, 1)"
    by (simp add: gap_process_step_def Let_def BUFFER_SIZE_def rd zero_disc_bytes pwrite_def
        quiet_os_def put_bytes_empty zero_block_def)
  have "gap_process_segment quiet_os \<lparr>content = [], writes = []\<rparr> zero_disc 0 0 1 STRATEGY_ABORT 0 =
          (0, \<lparr>content = zero_block, writes = [(0, DVD_VIDEO_LB_LEN)]\<rparr>, 1)"
    using step by (simp add: gap_process_segment_def gap_process_loop.simps)
  then show ?thesis
    by (simp add: gap_fill_from_plan_def forward_config_def quiet_os_def fill_range_def)
qed

lemma example_refresh:
  "rr_result (DVDCopyBlocksFillGaps quiet_os quiet_os forward_config zero_disc
                \<lparr>content = [], writes = []\<rparr> 0 1 STRATEGY_ABORT) = 0"
  "rr_destination (DVDCopyBlocksFillGaps quiet_os quiet_os forward_config zero_disc
                \<lparr>content = [], writes = []\<rparr> 0 1 STRATEGY_ABORT) =
     \<lparr>content = zero_block, writes = [(0, DVD_VIDEO_LB_LEN)]\<rparr>"
proof -
  have p: "refresh_plan quiet_os (content \<lparr>content = [], writes = []\<rparr>) 1 =
     Some (\<lparr>ranges = [\<lparr>start_block = 0, block_count = 1\<rparr>], capacity = 8\<rparr>, 0, 1)"
    using example_plan by simp
  have v: "gap_verify_samples quiet_os (content \<lparr>content = [], writes = []\<rparr>) zero_disc 0
             (gap_collect_samples \<lparr>ranges = [\<lparr>start_block = 0, block_count = 1\<rparr>], capacity = 8\<rparr> 1
                GAP_SAMPLE_TARGET) = 0"
    unfolding example_samples by simp
  show "rr_result (DVDCopyBlocksFillGaps quiet_os quiet_os forward_config zero_disc
                \<lparr>content = [], writes = []\<rparr> 0 1 STRATEGY_ABORT) = 0"
    using refresh_result_fields(1) [OF p v example_fill] by simp
  show "rr_destination (DVDCopyBlocksFillGaps quiet_os quiet_os forward_config zero_disc
                \<lparr>content = [], writes = []\<rparr> 0 1 STRATEGY_ABORT) =
     \<lparr>content = zero_block, writes = [(0, DVD_VIDEO_LB_LEN)]\<rparr>"
    using refresh_result_fields(2) [OF p v example_fill] by simp
qed

lemma example_blank_counts:
  "blank_count [] 1 = 0" "blank_count zero_block 1 = 1"
proof -
  show "blank_count [] 1 = 0" by (simp add: blank_count_def scanned_blocks_def)
  have "scanned_blocks zero_block 1 = 1" using LB_pos by (simp add: scanned_blocks_def)
  moreover have "blank_block zero_block 0"
    by (simp add: blank_block_def file_block_def zero_block_def)
  ultimately show "blank_count zero_block 1 = 1" by (simp add: blank_count_def)
qed

lemma filter_length_mono:
  "(\<forall>x \<in> set xs. P x \<longrightarrow> Q x) \<Longrightarrow> length (filter P xs) \<le> length (filter Q xs)"
proof (induction xs)
  case Nil
  then show ?case by simp
next
  case (Cons x xs)
  then show ?case by auto
qed

lemma refill_target_shrinks:
  assumes fr: "frame (target_byte f E) bound f f'" and t: "refill_target f' E b"
  shows "refill_target f E b"
proof (rule ccontr)
  assume n: "\<not> refill_target f E b"
  from t have bE: "b < E" by (simp add: refill_target_def)
  with n have ex: "b < length f div DVD_VIDEO_LB_LEN" and nb: "\<not> blank_block f b"
    by (auto simp: refill_target_def)
  from frame_block_unchanged [OF fr ex n] nb have "\<not> blank_block f' b"
    by (simp add: blank_block_def)
  moreover have "length f \<le> length f'" using fr by (simp add: frame_def)
  then have "length f div DVD_VIDEO_LB_LEN \<le> length f' div DVD_VIDEO_LB_LEN"
    by (rule div_le_mono)
  with ex have "b < length f' div DVD_VIDEO_LB_LEN" by simp
  ultimately show False using t by (simp add: refill_target_def)
qed

lemma refresh_no_plan:
  "refresh_plan os (content fd) E = None \<Longrightarrow>
   DVDCopyBlocksFillGaps os os2 cfg dvd_file fd offset E errorstrat =
     \<lparr>rr_result = 1, rr_destination = fd, rr_report = None\<rparr>"
  by (simp add: DVDCopyBlocksFillGaps_def)

text \<open>
  Claim C4. Let the scan of the output file have produced a plan, and let some block
  among the collected verification samples read differently from the disc than the
  block at the same index of the existing file. Then the refresh of the file returns
  a nonzero value, and the file descriptor is as it was before the call: the same
  contents and no write added to its log.
\<close>

theorem C4_verification_mismatch:
  "refresh_plan os (content destination) sz = Some (pl, blank_blks, truncated_blks) \<Longrightarrow>
   s \<in> set (gap_collect_samples pl sz GAP_SAMPLE_TARGET) \<Longrightarrow>
   buffer_bytes dvd_file (offset + int s) 1 DVD_VIDEO_LB_LEN \<noteq> file_block (content destination) s \<Longrightarrow>
   rr_result (DVDCopyBlocksFillGaps os os2 cfg dvd_file destination offset sz errorstrat) \<noteq> 0 \<and>
   rr_destination (DVDCopyBlocksFillGaps os os2 cfg dvd_file destination offset sz errorstrat)
     = destination"
  using refresh_verify_fails [of os destination sz pl blank_blks truncated_blks s dvd_file offset
      os2 cfg errorstrat]
  by simp

lemma ones_file_plan:
  "refresh_plan quiet_os ones_block 1 = Some (empty_plan, 0, 0)"
proof -
  have nb: "\<not> buffer_is_blank ones_block DVD_VIDEO_LB_LEN"
    using buffer_is_blank_iff [of DVD_VIDEO_LB_LEN ones_block] ones_not_zero
    by (simp add: zero_block_def)
  have ch: "scan_chunk quiet_os ones_block 0 1 0
              \<lparr>st_plan = empty_plan, st_blank_blocks = 0, st_pending_start = None\<rparr> =
            Inr \<lparr>st_plan = empty_plan, st_blank_blocks = 0, st_pending_start = None\<rparr>"
    using nb by (simp add: scan_chunk.simps)
  have d: "length ones_block div DVD_VIDEO_LB_LEN = 1" using LB_pos by simp
  have lp: "scan_loop quiet_os ones_block 1 0
              \<lparr>st_plan = empty_plan, st_blank_blocks = 0, st_pending_start = None\<rparr> =
            Inr \<lparr>st_plan = empty_plan, st_blank_blocks = 0, st_pending_start = None\<rparr>"
    using ch LB_pos
    by (simp add: scan_loop.simps pread_def quiet_os_def BUFFER_SIZE_def Let_def)
  show ?thesis
    using lp d
    by (simp add: refresh_plan_def scan_existing_file_for_gaps_def Let_def quiet_os_def)
qed

lemma ones_file_samples: "gap_collect_samples empty_plan 1 GAP_SAMPLE_TARGET = [0]"
  by (simp add: gap_collect_samples_def GAP_SAMPLE_TARGET_def gap_collect_loop.simps
      gap_sample_at_def forward_walk.simps gap_plan_contains_def empty_plan_def Let_def)

text \<open>
  A file of one block of ones against a disc of zeros: the plan is empty, block 0 is
  sampled, and the refresh fails without touching the file.
\<close>

theorem C4_verification_mismatch_witness:
  "rr_result (DVDCopyBlocksFillGaps quiet_os quiet_os forward_config zero_disc
                \<lparr>content = ones_block, writes = []\<rparr> 0 1 STRATEGY_SKIP_BLOCK) \<noteq> 0 \<and>
   rr_destination (DVDCopyBlocksFillGaps quiet_os quiet_os forward_config zero_disc
                \<lparr>content = ones_block, writes = []\<rparr> 0 1 STRATEGY_SKIP_BLOCK)
     = \<lparr>content = ones_block, writes = []\<rparr>"
proof -
  have p: "refresh_plan quiet_os (content \<lparr>content = ones_block, writes = []\<rparr>) 1 =
             Some (empty_plan, 0, 0)"
    using ones_file_plan by simp
  have s: "0 \<in> set (gap_collect_samples empty_plan 1 GAP_SAMPLE_TARGET)"
    unfolding ones_file_samples by simp
  have "file_block ones_block 0 = ones_block" by (simp add: file_block_def)
  then have ne: "buffer_bytes zero_disc (0 + int 0) 1 DVD_VIDEO_LB_LEN \<noteq>
              file_block (content \<lparr>content = ones_block, writes = []\<rparr>) 0"
    using ones_not_zero by (simp add: zero_disc_bytes zero_block_def)
  show ?thesis
    using C4_verification_mismatch [OF p s ne] by simp
qed

text \<open>
  Claim C5, as the code has it. For every refresh run, successful or not, on a disc that never
  returns more blocks than were asked for: the file is at least as long afterwards as
  before, every block of the expected range that is blank or missing afterwards was
  blank or missing before, and so the number of such blocks does not grow.
\<close>

theorem C5_gaps_do_not_grow:
  "reads_bounded dvd_file \<Longrightarrow>
   fd' = rr_destination (DVDCopyBlocksFillGaps os os2 cfg dvd_file fd offset sz errorstrat) \<Longrightarrow>
   length (content fd) \<le> length (content fd') \<and>
   (\<forall>b. refill_target (content fd') sz b \<longrightarrow> refill_target (content fd) sz b) \<and>
   gap_count (content fd') sz \<le> gap_count (content fd) sz"
proof -
  assume rb: "reads_bounded dvd_file"
    and fd': "fd' = rr_destination (DVDCopyBlocksFillGaps os os2 cfg dvd_file fd offset sz errorstrat)"
  from refresh_rel [OF rb, of fd sz os os2 cfg offset errorstrat] fd'
  have fr: "frame (target_byte (content fd) sz) (sz * DVD_VIDEO_LB_LEN) (content fd) (content fd')"
    by (simp add: refill_rel_def)
  have 1: "length (content fd) \<le> length (content fd')" using fr by (simp add: frame_def)
  have 2: "\<forall>b. refill_target (content fd') sz b \<longrightarrow> refill_target (content fd) sz b"
    using refill_target_shrinks [OF fr] by blast
  have 3: "gap_count (content fd') sz \<le> gap_count (content fd) sz"
    unfolding gap_count_def by (rule filter_length_mono) (use 2 in blast)
  from 1 2 3 show ?thesis by simp
qed

text \<open>
  The refresh of an empty file, one block expected, from a disc of zeros.
\<close>

theorem C5_gaps_do_not_grow_witness:
  "length ([] :: byte list) \<le> length zero_block \<and>
   gap_count zero_block 1 \<le> gap_count [] 1"
  using C5_gaps_do_not_grow [OF zero_disc_bounded, of "\<lparr>content = zero_block, writes = [(0, DVD_VIDEO_LB_LEN)]\<rparr>"
      quiet_os quiet_os forward_config "\<lparr>content = [], writes = []\<rparr>" 0 1 STRATEGY_ABORT]
    example_refresh(2)
  by simp

text \<open>
  Claim C5 as stated fails: the refresh of an empty file, one block expected, from a
  disc whose block 0 is all zeros returns 0, and the file has one blank block in the
  expected range afterwards where it had none before.
\<close>

theorem C5_blank_count_counterexample:
  "rr_result (DVDCopyBlocksFillGaps quiet_os quiet_os forward_config zero_disc
                \<lparr>content = [], writes = []\<rparr> 0 1 STRATEGY_ABORT) = 0 \<and>
   \<not> blank_count
        (content (rr_destination (DVDCopyBlocksFillGaps quiet_os quiet_os forward_config zero_disc
                \<lparr>content = [], writes = []\<rparr> 0 1 STRATEGY_ABORT))) 1
      \<le> blank_count (content \<lparr>content = [], writes = []\<rparr>) 1"
  unfolding example_refresh using example_blank_counts by simp

text \<open>
  Claim C10. On a disc that never returns more blocks than were asked for, every write
  a refresh adds to the log of the output file starts on a block boundary and covers
  only blocks that are blank in the existing file or lie at or after its last full
  block, inside the expected range; these are exactly the blocks of the computed gap
  plan, and where no plan could be computed the file descriptor is untouched. Every
  full block of the existing file that is not blank is unchanged, and so is everything
  from byte \<open>expected_blocks * 2048\<close> on. Finalizing in refresh mode returns 0 and leaves
  the file as it is: no truncation.
\<close>

theorem C10_refresh_writes_only_gaps:
  "reads_bounded dvd_file \<Longrightarrow>
   fd' = rr_destination (DVDCopyBlocksFillGaps os os2 cfg dvd_file fd offset sz errorstrat) \<Longrightarrow>
   (\<exists>new. writes fd' = writes fd @ new \<and>
      (\<forall>w \<in> set new. fst w mod DVD_VIDEO_LB_LEN = 0 \<and>
         (\<forall>i. fst w \<le> i \<and> i < fst w + snd w \<longrightarrow>
            refill_target (content fd) sz (i div DVD_VIDEO_LB_LEN)))) \<and>
   (\<forall>pl bl tr. refresh_plan os (content fd) sz = Some (pl, bl, tr) \<longrightarrow>
      (\<forall>b. in_gap (ranges pl) b \<longleftrightarrow> refill_target (content fd) sz b)) \<and>
   (refresh_plan os (content fd) sz = None \<longrightarrow> fd' = fd) \<and>
   (\<forall>b. b < length (content fd) div DVD_VIDEO_LB_LEN \<and> \<not> blank_block (content fd) b \<longrightarrow>
      file_block (content fd') b = file_block (content fd) b) \<and>
   drop (sz * DVD_VIDEO_LB_LEN) (content fd') = drop (sz * DVD_VIDEO_LB_LEN) (content fd) \<and>
   finalize_vob_file os True fd' n = (0, fd')"
proof -
  assume rb: "reads_bounded dvd_file"
    and fd': "fd' = rr_destination (DVDCopyBlocksFillGaps os os2 cfg dvd_file fd offset sz errorstrat)"
  from refresh_rel [OF rb, of fd sz os os2 cfg offset errorstrat] fd'
  have rel: "refill_rel (target_byte (content fd) sz) (sz * DVD_VIDEO_LB_LEN) fd fd'" by simp
  then have fr: "frame (target_byte (content fd) sz) (sz * DVD_VIDEO_LB_LEN) (content fd) (content fd')"
    by (simp add: refill_rel_def)
  from rel obtain new where new: "writes fd' = writes fd @ new"
    "writes_ok (target_byte (content fd) sz) new"
    unfolding refill_rel_def by blast
  have 1: "\<exists>new. writes fd' = writes fd @ new \<and>
      (\<forall>w \<in> set new. fst w mod DVD_VIDEO_LB_LEN = 0 \<and>
         (\<forall>i. fst w \<le> i \<and> i < fst w + snd w \<longrightarrow>
            refill_target (content fd) sz (i div DVD_VIDEO_LB_LEN)))"
    using new unfolding writes_ok_def target_byte_def by blast
  have 2: "\<forall>pl bl tr. refresh_plan os (content fd) sz = Some (pl, bl, tr) \<longrightarrow>
      (\<forall>b. in_gap (ranges pl) b \<longleftrightarrow> refill_target (content fd) sz b)"
    using refresh_plan_props by blast
  have 3: "refresh_plan os (content fd) sz = None \<longrightarrow> fd' = fd"
    using refresh_no_plan [of os fd sz os2 cfg dvd_file offset errorstrat] fd' by simp
  have 4: "\<forall>b. b < length (content fd) div DVD_VIDEO_LB_LEN \<and> \<not> blank_block (content fd) b \<longrightarrow>
      file_block (content fd') b = file_block (content fd) b"
  proof (intro allI impI)
    fix b assume b: "b < length (content fd) div DVD_VIDEO_LB_LEN \<and> \<not> blank_block (content fd) b"
    then have "\<not> refill_target (content fd) sz b" by (simp add: refill_target_def)
    with frame_block_unchanged [OF fr] b
    show "file_block (content fd') b = file_block (content fd) b" by blast
  qed
  have 5: "drop (sz * DVD_VIDEO_LB_LEN) (content fd') = drop (sz * DVD_VIDEO_LB_LEN) (content fd)"
    using frame_tail_unchanged [OF fr] .
  have 6: "finalize_vob_file os True fd' n = (0, fd')" by (simp add: finalize_vob_file_def)
  from 1 2 3 4 5 6 show ?thesis by blast
qed

text \<open>
  The refresh of an empty file, one block expected, from a disc of zeros: one write,
  of block 0, which is in the plan.
\<close>

theorem C10_refresh_writes_only_gaps_witness:
  "reads_bounded zero_disc \<and>
   writes (rr_destination (DVDCopyBlocksFillGaps quiet_os quiet_os forward_config zero_disc
             \<lparr>content = [], writes = []\<rparr> 0 1 STRATEGY_ABORT)) = [(0, DVD_VIDEO_LB_LEN)] \<and>
   refill_target [] 1 0 \<and>
   in_gap [\<lparr>start_block = 0, block_count = 1\<rparr>] 0 \<and>
   drop (1 * DVD_VIDEO_LB_LEN)
     (content (rr_destination (DVDCopyBlocksFillGaps quiet_os quiet_os forward_config zero_disc
             \<lparr>content = [], writes = []\<rparr> 0 1 STRATEGY_ABORT))) = [] \<and>
   finalize_vob_file quiet_os True
     (rr_destination (DVDCopyBlocksFillGaps quiet_os quiet_os forward_config zero_disc
             \<lparr>content = [], writes = []\<rparr> 0 1 STRATEGY_ABORT)) 1 =
     (0, \<lparr>content = zero_block, writes = [(0, DVD_VIDEO_LB_LEN)]\<rparr>)"
proof -
  let ?fd = "\<lparr>content = [], writes = []\<rparr> :: fd_t"
  let ?run = "DVDCopyBlocksFillGaps quiet_os quiet_os forward_config zero_disc ?fd 0 1 STRATEGY_ABORT"
  have h: "rr_destination ?run = rr_destination ?run" by simp
  note t = C10_refresh_writes_only_gaps [OF zero_disc_bounded h, of 1]
  have d: "rr_destination ?run = \<lparr>content = zero_block, writes = [(0, DVD_VIDEO_LB_LEN)]\<rparr>"
    by (rule example_refresh(2))
  from t obtain new where new: "writes (rr_destination ?run) = writes ?fd @ new"
    and ok: "\<forall>w \<in> set new. fst w mod DVD_VIDEO_LB_LEN = 0 \<and>
         (\<forall>i. fst w \<le> i \<and> i < fst w + snd w \<longrightarrow>
            refill_target (content ?fd) 1 (i div DVD_VIDEO_LB_LEN))"
    by blast
  from new d have n: "new = [(0, DVD_VIDEO_LB_LEN)]" by simp
  have 1: "writes (rr_destination ?run) = [(0, DVD_VIDEO_LB_LEN)]" using new n by simp
  from ok n have "\<forall>i. i < DVD_VIDEO_LB_LEN \<longrightarrow> refill_target [] 1 (i div DVD_VIDEO_LB_LEN)"
    by simp
  then have 2: "refill_target [] 1 0" using LB_pos by fastforce
  from t have "\<forall>pl bl tr. refresh_plan quiet_os (content ?fd) 1 = Some (pl, bl, tr) \<longrightarrow>
      (\<forall>b. in_gap (ranges pl) b \<longleftrightarrow> refill_target (content ?fd) 1 b)" by blast
  with example_plan 2 have 3: "in_gap [\<lparr>start_block = 0, block_count = 1\<rparr>] 0" by simp
  from t have "drop (1 * DVD_VIDEO_LB_LEN) (content (rr_destination ?run)) =
      drop (1 * DVD_VIDEO_LB_LEN) (content ?fd)" by blast
  then have 4: "drop (1 * DVD_VIDEO_LB_LEN) (content (rr_destination ?run)) = []" by simp
  from t have "finalize_vob_file quiet_os True (rr_destination ?run) 1 = (0, rr_destination ?run)"
    by blast
  then have 5: "finalize_vob_file quiet_os True (rr_destination ?run) 1 =
     (0, \<lparr>content = zero_block, writes = [(0, DVD_VIDEO_LB_LEN)]\<rparr>)"
    using d by simp
  from zero_disc_bounded 1 2 3 4 5 show ?thesis by blast
qed

section \<open>Properties of the 1 GiB split\<close>

text \<open>
  A cell that begins when the open file is exactly full. The file is rotated only while
  \<^verbatim>\<open>left > 0\<close> for the current cell, so a file filled by the last chunk of a cell stays
  open; for the next cell \<^verbatim>\<open>to_read\<close> is capped to 0, the read returns no block, and the
  loop leaves through \<^verbatim>\<open>goto cleanup\<close> with \<^verbatim>\<open>result = 1\<close>, whatever the disc holds.
\<close>

lemma write_cells_step_at_cap:
  assumes rb: "reads_bounded dvd_file" and full: "ws_size st = MAX_VOB_SIZE" and left: "0 < left"
  shows "write_cells_step os dvd_file soffset left st =
           Inl (ws_closed st @ [(ws_vob st, ws_streamout st)])"
proof -
  have "read_ret dvd_file soffset 0 \<le> 0" using rb by (simp add: reads_bounded_def)
  then have "read_ret dvd_file soffset 0 < 0 \<or> read_ret dvd_file soffset 0 = 0" by arith
  then show ?thesis
    using full left by (auto simp: write_cells_step_def Let_def)
qed

lemma write_cell_loop_at_cap:
  assumes "reads_bounded dvd_file" "ws_size st = MAX_VOB_SIZE" "0 < left"
  shows "write_cell_loop os dvd_file soffset left st =
           Inl (ws_closed st @ [(ws_vob st, ws_streamout st)])"
  using assms(3) write_cells_step_at_cap [OF assms, of os soffset]
  by (simp add: write_cell_loop.simps [of os dvd_file soffset left st])

text \<open>
  On a disc without read errors, with writes that succeed, a cell that fits into the
  open file is copied whole and the file stays open.
\<close>

lemma perfect_disc_bounded: "reads_bounded perfect_disc"
  by (simp add: reads_bounded_def perfect_disc_def)

lemma write_cells_step_perfect:
  assumes left: "0 < left" and room: "ws_size st + left \<le> MAX_VOB_SIZE"
  shows "\<exists>k data. 0 < k \<and> k \<le> left \<and> length data = nat k * DVD_VIDEO_LB_LEN \<and>
           write_cells_step quiet_os perfect_disc soffset left st =
             Inr (soffset + k, left - k,
                  st\<lparr>ws_size := ws_size st + k,
                     ws_streamout := \<lparr>content = content (ws_streamout st) @ data,
                        writes = writes (ws_streamout st) @
                                   [(length (content (ws_streamout st)), length data)]\<rparr>\<rparr>)"
proof -
  define k where "k = (if left > int BUFFER_SIZE then int BUFFER_SIZE else left)"
  define data where
    "data = buffer_bytes perfect_disc soffset k (nat (k * int DVD_VIDEO_LB_LEN))"
  have kpos: "0 < k" and kle: "k \<le> left" using left by (simp_all add: k_def BUFFER_SIZE_def)
  have len: "length data = nat k * DVD_VIDEO_LB_LEN"
    using kpos by (simp add: data_def nat_mult_distrib)
  have rd: "read_ret perfect_disc soffset k = k" by (simp add: perfect_disc_def)
  have wr: "write_seq quiet_os (ws_streamout st) data =
          (int (length data),
           \<lparr>content = content (ws_streamout st) @ data,
            writes = writes (ws_streamout st) @ [(length (content (ws_streamout st)), length data)]\<rparr>)"
    by (rule write_seq_complete [OF quiet_os_writes_complete])
  have il: "int (length data) = k * int DVD_VIDEO_LB_LEN" using kpos by (simp add: data_def)
  have norot: "(ws_size st + k \<ge> MAX_VOB_SIZE \<and> left - k > 0) = False" using room by arith
  have t0: "(if left + ws_size st > MAX_VOB_SIZE then MAX_VOB_SIZE - ws_size st else left) = left"
    using room by simp
  have "write_cells_step quiet_os perfect_disc soffset left st =
             Inr (soffset + k, left - k,
                  st\<lparr>ws_size := ws_size st + k,
                     ws_streamout := \<lparr>content = content (ws_streamout st) @ data,
                        writes = writes (ws_streamout st) @
                                   [(length (content (ws_streamout st)), length data)]\<rparr>\<rparr>)"
    unfolding write_cells_step_def Let_def t0 k_def [symmetric] rd data_def [symmetric] wr norot
    using kpos il by simp
  with kpos kle len show ?thesis by blast
qed

lemma write_cell_loop_perfect:
  assumes "0 \<le> left" "ws_size st + left \<le> MAX_VOB_SIZE"
  shows "\<exists>st'. write_cell_loop quiet_os perfect_disc soffset left st = Inr st' \<and>
           ws_size st' = ws_size st + left \<and> ws_vob st' = ws_vob st \<and>
           ws_closed st' = ws_closed st \<and>
           length (content (ws_streamout st')) =
             length (content (ws_streamout st)) + nat left * DVD_VIDEO_LB_LEN"
  using assms
proof (induction "nat left" arbitrary: left soffset st rule: less_induct)
  case less
  show ?case
  proof (cases "0 < left")
    case False
    then have "write_cell_loop quiet_os perfect_disc soffset left st = Inr st"
      by (simp add: write_cell_loop.simps [of quiet_os perfect_disc soffset left st])
    moreover from False less.prems have "left = 0" by simp
    ultimately show ?thesis by simp
  next
    case True
    from write_cells_step_perfect [OF True less.prems(2), of soffset]
    obtain k data where k: "0 < k" "k \<le> left" "length data = nat k * DVD_VIDEO_LB_LEN"
      and step: "write_cells_step quiet_os perfect_disc soffset left st =
             Inr (soffset + k, left - k,
                  st\<lparr>ws_size := ws_size st + k,
                     ws_streamout := \<lparr>content = content (ws_streamout st) @ data,
                        writes = writes (ws_streamout st) @
                                   [(length (content (ws_streamout st)), length data)]\<rparr>\<rparr>)"
      by blast
    let ?st1 = "st\<lparr>ws_size := ws_size st + k,
                     ws_streamout := \<lparr>content = content (ws_streamout st) @ data,
                        writes = writes (ws_streamout st) @
                                   [(length (content (ws_streamout st)), length data)]\<rparr>\<rparr>"
    have m: "nat (left - k) < nat left" using k True by simp
    have p1: "0 \<le> left - k" using k by simp
    have p2: "ws_size ?st1 + (left - k) \<le> MAX_VOB_SIZE" using less.prems(2) by simp
    from less.hyps [OF m p1 p2, of "soffset + k"]
    obtain st' where st': "write_cell_loop quiet_os perfect_disc (soffset + k) (left - k) ?st1 = Inr st'"
      "ws_size st' = ws_size ?st1 + (left - k)" "ws_vob st' = ws_vob ?st1"
      "ws_closed st' = ws_closed ?st1"
      "length (content (ws_streamout st')) =
             length (content (ws_streamout ?st1)) + nat (left - k) * DVD_VIDEO_LB_LEN"
      by blast
    have "write_cell_loop quiet_os perfect_disc soffset left st = Inr st'"
      using True step st'(1)
      by (simp add: write_cell_loop.simps [of quiet_os perfect_disc soffset left st])
    moreover have "ws_size st' = ws_size st + left" using st'(2) by simp
    moreover have "ws_vob st' = ws_vob st" using st'(3) by simp
    moreover have "ws_closed st' = ws_closed st" using st'(4) by simp
    moreover have "nat k + nat (left - k) = nat left" using k p1 by simp
    then have "nat k * DVD_VIDEO_LB_LEN + nat (left - k) * DVD_VIDEO_LB_LEN =
               nat left * DVD_VIDEO_LB_LEN"
      by (simp add: add_mult_distrib [symmetric])
    with st'(5) k(3) have "length (content (ws_streamout st')) =
             length (content (ws_streamout st)) + nat left * DVD_VIDEO_LB_LEN"
      by simp
    ultimately show ?thesis by blast
  qed
qed

text \<open>
  Claim C6. Two cells, the first of 524,288 blocks and the second of 100 blocks, on a
  disc without read errors and with writes that succeed: the first cell fills
  \<^verbatim>\<open>VTS_xx_1.VOB\<close> to exactly 1 GiB, no second file is opened for the blocks that
  remain, and \<^verbatim>\<open>DVDWriteCells\<close> returns 1.
\<close>

theorem C6_cap_reached_at_cell_end:
  "fst (DVDWriteCells quiet_os perfect_disc [0, 524289] [524288, 524389]) = 1 \<and>
   map fst (snd (DVDWriteCells quiet_os perfect_disc [0, 524289] [524288, 524389])) = [1] \<and>
   map (\<lambda>f. length (content (snd f)))
     (snd (DVDWriteCells quiet_os perfect_disc [0, 524289] [524288, 524389])) = [1073741824]"
proof -
  let ?st0 = "\<lparr>ws_vob = 1, ws_size = 0, ws_streamout = \<lparr>content = [], writes = []\<rparr>,
                 ws_closed = []\<rparr>"
  have "\<exists>st'. write_cell_loop quiet_os perfect_disc 0 524288 ?st0 = Inr st' \<and>
           ws_size st' = ws_size ?st0 + 524288 \<and> ws_vob st' = ws_vob ?st0 \<and>
           ws_closed st' = ws_closed ?st0 \<and>
           length (content (ws_streamout st')) =
             length (content (ws_streamout ?st0)) + nat 524288 * DVD_VIDEO_LB_LEN"
    by (rule write_cell_loop_perfect) (simp_all add: MAX_VOB_SIZE_def)
  then obtain st1 where c1: "write_cell_loop quiet_os perfect_disc 0 524288 ?st0 = Inr st1"
    and s1: "ws_size st1 = MAX_VOB_SIZE" "ws_vob st1 = 1" "ws_closed st1 = []"
      "length (content (ws_streamout st1)) = 1073741824"
    by (auto simp: MAX_VOB_SIZE_def DVD_VIDEO_LB_LEN_def)
  have c2: "write_cell_loop quiet_os perfect_disc 524289 100 st1 =
              Inl (ws_closed st1 @ [(ws_vob st1, ws_streamout st1)])"
    by (rule write_cell_loop_at_cap [OF perfect_disc_bounded s1(1)]) simp
  have "DVDWriteCells quiet_os perfect_disc [0, 524289] [524288, 524389] =
          (1, [(1, ws_streamout st1)])"
    using c1 c2 s1 by (simp add: DVDWriteCells_def quiet_os_def)
  with s1(4) show ?thesis by simp
qed

text \<open>
  The size cap itself. On a disc that never returns more blocks than were asked for,
  every pass of the loop keeps \<^verbatim>\<open>size\<close> within \<^verbatim>\<open>MAX_VOB_SIZE\<close>, and when \<^verbatim>\<open>DVDWriteCells\<close>
  returns 0 every output file has at most 1,073,741,824 bytes and the files are
  numbered 1, 2, 3 and so on.
\<close>

lemma ftruncate_length: "length (ftruncate f n) = n"
  by (simp add: ftruncate_def)

lemma cap_bytes: "nat MAX_VOB_SIZE * DVD_VIDEO_LB_LEN = 1073741824"
  by (simp add: MAX_VOB_SIZE_def DVD_VIDEO_LB_LEN_def)

lemma upt_snoc_int: "map int [1 ..< 1 + n] @ [1 + int n] = map int [1 ..< 1 + Suc n]"
  by simp

lemma write_cells_step_inv:
  assumes rb: "reads_bounded dvd_file" and inv: "cells_inv st" and left: "0 < left"
    and step: "write_cells_step os dvd_file soffset left st = Inr (soffset', left', st')"
  shows "cells_inv st' \<and> 0 \<le> left' \<and> left' < left"
proof -
  define to_read0 where
    "to_read0 = (if left + ws_size st > MAX_VOB_SIZE then MAX_VOB_SIZE - ws_size st else left)"
  define to_read where
    "to_read = (if to_read0 > int BUFFER_SIZE then int BUFFER_SIZE else to_read0)"
  define have_read where "have_read = read_ret dvd_file soffset to_read"
  define data where
    "data = buffer_bytes dvd_file soffset to_read (nat (have_read * int DVD_VIDEO_LB_LEN))"
  define wr where "wr = write_seq os (ws_streamout st) data"
  define size' where "size' = ws_size st + have_read"
  from inv have sz: "0 \<le> ws_size st" "ws_size st \<le> MAX_VOB_SIZE"
    and len: "length (content (ws_streamout st)) = nat (ws_size st) * DVD_VIDEO_LB_LEN"
    and closed: "list_all (\<lambda>f. length (content (snd f)) \<le> 1073741824) (ws_closed st)"
    and nums: "map fst (ws_closed st) = map int [1 ..< 1 + length (ws_closed st)]"
    and vob: "ws_vob st = 1 + int (length (ws_closed st))"
    by (simp_all add: cells_inv_def)
  have eq: "write_cells_step os dvd_file soffset left st =
     (if have_read < 0 then Inl (ws_closed st @ [(ws_vob st, ws_streamout st)])
      else if have_read = 0 then Inl (ws_closed st @ [(ws_vob st, ws_streamout st)])
      else if fst wr \<noteq> have_read * int DVD_VIDEO_LB_LEN
      then Inl (ws_closed st @ [(ws_vob st, snd wr)])
      else if size' \<ge> MAX_VOB_SIZE \<and> left - have_read > 0 then
        (case finalize_vob_file os False (snd wr) (nat size') of
           (rc, fin) \<Rightarrow>
             if rc \<noteq> 0 then Inl (ws_closed st @ [(ws_vob st, fin)])
             else if open_fails os (ws_vob st + 1)
             then Inl (ws_closed st @ [(ws_vob st, fin)])
             else Inr (soffset + have_read, left - have_read,
                       \<lparr>ws_vob = ws_vob st + 1, ws_size = 0,
                        ws_streamout = \<lparr>content = [], writes = []\<rparr>,
                        ws_closed = ws_closed st @ [(ws_vob st, fin)]\<rparr>))
      else Inr (soffset + have_read, left - have_read,
                st\<lparr>ws_size := size', ws_streamout := snd wr\<rparr>))"
    unfolding write_cells_step_def Let_def to_read0_def [symmetric] to_read_def [symmetric]
      have_read_def [symmetric] data_def [symmetric] wr_def [symmetric] size'_def [symmetric]
    by simp
  have tr0: "to_read0 \<le> left" "to_read0 \<le> MAX_VOB_SIZE - ws_size st"
    using sz by (simp_all add: to_read0_def)
  have tr: "to_read \<le> to_read0" by (simp add: to_read_def)
  have hr: "have_read \<le> to_read" using rb by (simp add: have_read_def reads_bounded_def)
  from step eq have pos: "0 < have_read"
    and wrote: "fst wr = have_read * int DVD_VIDEO_LB_LEN"
    by (auto split: if_splits)
  have l': "left' = left - have_read"
    using step eq pos wrote by (auto split: if_splits prod.splits)
  have bound: "size' \<le> MAX_VOB_SIZE" "0 \<le> size'"
    using tr0 tr hr pos sz by (simp_all add: size'_def)
  have dlen: "length data = nat have_read * DVD_VIDEO_LB_LEN"
    using pos by (simp add: data_def nat_mult_distrib)
  have "fst wr = int (length data)" using wrote pos by (simp add: data_def)
  then have wc: "content (snd wr) = content (ws_streamout st) @ data"
    by (simp add: wr_def write_seq_def pwrite_def Let_def put_bytes_end)
  have "nat size' = nat (ws_size st) + nat have_read"
    using sz pos by (simp add: size'_def nat_add_distrib)
  then have wl: "length (content (snd wr)) = nat size' * DVD_VIDEO_LB_LEN"
    using wc len dlen by (simp add: add_mult_distrib)
  have "cells_inv st'"
  proof (cases "size' \<ge> MAX_VOB_SIZE \<and> left - have_read > 0")
    case False
    with step eq pos wrote have "st' = st\<lparr>ws_size := size', ws_streamout := snd wr\<rparr>"
      by (auto split: if_splits)
    then show ?thesis
      using bound wl closed nums vob by (simp add: cells_inv_def)
  next
    case True
    obtain rc fin where f: "finalize_vob_file os False (snd wr) (nat size') = (rc, fin)"
      by (cases "finalize_vob_file os False (snd wr) (nat size')")
    from step eq pos wrote True f have rc: "rc = 0"
      and st': "st' = \<lparr>ws_vob = ws_vob st + 1, ws_size = 0,
                        ws_streamout = \<lparr>content = [], writes = []\<rparr>,
                        ws_closed = ws_closed st @ [(ws_vob st, fin)]\<rparr>"
      by (auto split: if_splits)
    from f rc have "content fin = ftruncate (content (snd wr)) (nat size' * DVD_VIDEO_LB_LEN)"
      by (auto simp: finalize_vob_file_def split: if_splits)
    then have "length (content fin) = nat size' * DVD_VIDEO_LB_LEN"
      by (simp add: ftruncate_length)
    moreover have "nat size' \<le> nat MAX_VOB_SIZE" using bound by simp
    then have "nat size' * DVD_VIDEO_LB_LEN \<le> nat MAX_VOB_SIZE * DVD_VIDEO_LB_LEN"
      by (rule mult_le_mono1)
    ultimately have fl: "length (content fin) \<le> 1073741824" using cap_bytes by simp
    have n2: "map fst (ws_closed st @ [(ws_vob st, fin)]) =
              map int [1 ..< 1 + length (ws_closed st @ [(ws_vob st, fin)])]"
      using nums vob upt_snoc_int [of "length (ws_closed st)"] by simp
    show ?thesis
      unfolding cells_inv_def st'
      using closed fl n2 vob by (simp add: MAX_VOB_SIZE_def)
  qed
  moreover have "0 \<le> left'" "left' < left" using l' pos hr tr tr0 by simp_all
  ultimately show ?thesis by simp
qed

lemma write_cell_loop_inv:
  assumes rb: "reads_bounded dvd_file"
  shows "cells_inv st \<Longrightarrow> write_cell_loop os dvd_file soffset left st = Inr st' \<Longrightarrow> cells_inv st'"
proof (induction "nat left" arbitrary: left soffset st rule: less_induct)
  case less
  show ?case
  proof (cases "0 < left")
    case False
    with less.prems(2) have "st' = st"
      by (simp add: write_cell_loop.simps [of os dvd_file soffset left st])
    with less.prems(1) show ?thesis by simp
  next
    case True
    show ?thesis
    proof (cases "write_cells_step os dvd_file soffset left st")
      case (Inl files)
      with True less.prems(2) show ?thesis
        by (simp add: write_cell_loop.simps [of os dvd_file soffset left st])
    next
      case (Inr nxt)
      obtain so1 l1 st1 where nxt: "nxt = (so1, l1, st1)" by (cases nxt)
      from write_cells_step_inv [OF rb less.prems(1) True, of os soffset so1 l1 st1] Inr nxt
      have i1: "cells_inv st1" and l1: "0 \<le> l1" "l1 < left" by simp_all
      have m: "nat l1 < nat left" using l1 by simp
      have "write_cell_loop os dvd_file so1 l1 st1 = Inr st'"
        using True Inr nxt less.prems(2)
        by (simp add: write_cell_loop.simps [of os dvd_file soffset left st])
      from less.hyps [OF m i1 this] show ?thesis .
    qed
  qed
qed

lemma write_cells_loop_inv:
  assumes rb: "reads_bounded dvd_file"
  shows "cells_inv st \<Longrightarrow> write_cells_loop os dvd_file cells st = Inr st' \<Longrightarrow> cells_inv st'"
proof (induction cells arbitrary: st)
  case Nil
  then show ?case by simp
next
  case (Cons c cells)
  obtain cell_start cell_end where c: "c = (cell_start, cell_end)" by (cases c)
  show ?case
  proof (cases "write_cell_loop os dvd_file cell_start (cell_end - cell_start) st")
    case (Inl files)
    with Cons.prems(2) c show ?thesis by simp
  next
    case (Inr st1)
    from write_cell_loop_inv [OF rb Cons.prems(1) Inr] have "cells_inv st1" .
    moreover from Cons.prems(2) c Inr have "write_cells_loop os dvd_file cells st1 = Inr st'"
      by simp
    ultimately show ?thesis by (rule Cons.IH)
  qed
qed

lemma DVDWriteCells_files_bounded:
  assumes rb: "reads_bounded dvd_file"
    and ok: "DVDWriteCells os dvd_file cell_start_sector cell_end_sector = (0, files)"
  shows "list_all (\<lambda>f. length (content (snd f)) \<le> 1073741824) files \<and>
         map fst files = map int [1 ..< 1 + length files]"
proof -
  let ?st0 = "\<lparr>ws_vob = 1, ws_size = 0, ws_streamout = \<lparr>content = [], writes = []\<rparr>,
                 ws_closed = []\<rparr>"
  have i0: "cells_inv ?st0" by (simp add: cells_inv_def MAX_VOB_SIZE_def)
  from ok have nf: "\<not> open_fails os 1" by (auto simp: DVDWriteCells_def split: if_splits)
  show ?thesis
  proof (cases "write_cells_loop os dvd_file (zip cell_start_sector cell_end_sector) ?st0")
    case (Inl fs)
    with ok nf show ?thesis by (simp add: DVDWriteCells_def)
  next
    case (Inr st)
    from write_cells_loop_inv [OF rb i0 Inr] have inv: "cells_inv st" .
    obtain frc fin where f: "finalize_vob_file os False (ws_streamout st) (nat (ws_size st)) = (frc, fin)"
      by (cases "finalize_vob_file os False (ws_streamout st) (nat (ws_size st))")
    from ok nf Inr f have frc: "frc = 0" and files: "files = ws_closed st @ [(ws_vob st, fin)]"
      by (auto simp: DVDWriteCells_def split: if_splits)
    from f frc have "content fin =
        ftruncate (content (ws_streamout st)) (nat (ws_size st) * DVD_VIDEO_LB_LEN)"
      by (auto simp: finalize_vob_file_def split: if_splits)
    then have "length (content fin) = nat (ws_size st) * DVD_VIDEO_LB_LEN"
      by (simp add: ftruncate_length)
    moreover from inv have "ws_size st \<le> MAX_VOB_SIZE" unfolding cells_inv_def by blast
    then have "nat (ws_size st) \<le> nat MAX_VOB_SIZE" by simp
    then have "nat (ws_size st) * DVD_VIDEO_LB_LEN \<le> nat MAX_VOB_SIZE * DVD_VIDEO_LB_LEN"
      by (rule mult_le_mono1)
    ultimately have fl: "length (content fin) \<le> 1073741824" using cap_bytes by simp
    from inv have closed: "list_all (\<lambda>f. length (content (snd f)) \<le> 1073741824) (ws_closed st)"
      and nums: "map fst (ws_closed st) = map int [1 ..< 1 + length (ws_closed st)]"
      and vob: "ws_vob st = 1 + int (length (ws_closed st))"
      by (simp_all add: cells_inv_def)
    have "map fst (ws_closed st @ [(ws_vob st, fin)]) =
              map int [1 ..< 1 + length (ws_closed st @ [(ws_vob st, fin)])]"
      using nums vob upt_snoc_int [of "length (ws_closed st)"] by simp
    with closed fl files show ?thesis by simp
  qed
qed

end
